theory Spec2Isabelle
  imports Main "HOL-Library.Sublist"
begin

section \<open>The world the script runs in\<close>

text \<open>
  \<^verbatim>\<open>build.py\<close> is a command dispatcher: it deletes build directories, imports two
  libraries, and hands six fixed command lines to \<^verbatim>\<open>subprocess.run\<close>. Everything it
  touches is made explicit here.

  \<^item> The working directory is a tree of regular files and directories; a directory is the
    list of its entries in listing order. \<open>wf\<close> says that the names of a directory are
    distinct, as they are in a file system. Symbolic links, permissions and I/O errors are
    not modelled.
  \<^item> \<open>modules\<close> are the names \<^verbatim>\<open>import\<close> finds.
  \<^item> A \<open>shell\<close> gives, for a command line and the machine it runs on, the outcome of
    \<^verbatim>\<open>subprocess.run(..., shell=True, check=True, capture_output=True, text=True)\<close>:
    either it completes with exit status 0 and its captured standard output, or
    \<^verbatim>\<open>CalledProcessError\<close> is raised, with its message and the captured standard
    error. The command may change the machine (files, installed modules). Other
    exceptions of \<^verbatim>\<open>subprocess.run\<close> are not modelled.
  \<^item> \<open>out\<close> is what \<^verbatim>\<open>print\<close> wrote, one string for each call. \<^verbatim>\<open>print\<close> raises
    nothing: the encoding of standard output is not modelled.
  \<^item> \<open>events\<close> is a ghost log, not in the source: the phase functions entered, the
    imports tried and the commands handed to the shell, each with its outcome. The
    theorems about what runs, and in which order, are stated on it.
\<close>

datatype node = File | Dir "(string \<times> node) list"

type_synonym dir = "(string \<times> node) list"

fun wf :: "node \<Rightarrow> bool" where
  "wf File = True"
| "wf (Dir es) = (distinct (map fst es) \<and> (\<forall>e \<in> set es. wf (snd e)))"

definition is_dir :: "node \<Rightarrow> bool" where
  "is_dir nd = (case nd of Dir _ \<Rightarrow> True | File \<Rightarrow> False)"

datatype exn = SystemExit int | NotADirectoryError | FileNotFoundError

datatype phase = Clean | Check | Build | Install | Test

datatype event = Phase phase | Import string bool | Shell string bool

datatype proc_outcome = Completed string | CalledProcessError string string

record machine =
  fs :: dir
  modules :: "string list"

type_synonym shell = "string \<Rightarrow> machine \<Rightarrow> proc_outcome \<times> machine"

record world =
  mach :: machine
  out :: "string list"
  events :: "event list"

definition print :: "string \<Rightarrow> world \<Rightarrow> world" where
  "print s w = w\<lparr>out := out w @ [s]\<rparr>"

definition log_event :: "event \<Rightarrow> world \<Rightarrow> world" where
  "log_event e w = w\<lparr>events := events w @ [e]\<rparr>"

text \<open>\<^verbatim>\<open>os.path.exists(name)\<close> for a name in the working directory: true of a file and
  of a directory.\<close>

definition os_path_exists :: "string \<Rightarrow> world \<Rightarrow> bool" where
  "os_path_exists name w = (map_of (fs (mach w)) name \<noteq> None)"

text \<open>\<^verbatim>\<open>os.path.join(root, name)\<close>, for the roots \<^verbatim>\<open>os.walk('.')\<close> produces.\<close>

definition join :: "string \<Rightarrow> string \<Rightarrow> string" where
  "join root name = root @ ''/'' @ name"

text \<open>\<^verbatim>\<open>shutil.rmtree\<close> of an entry of a directory: it deletes a directory with all it
  holds, and raises on a regular file and on a missing path.\<close>

definition rmtree :: "string \<Rightarrow> dir \<Rightarrow> exn + dir" where
  "rmtree name es =
     (case map_of es name of
        None \<Rightarrow> Inl FileNotFoundError
      | Some File \<Rightarrow> Inl NotADirectoryError
      | Some (Dir _) \<Rightarrow> Inr (filter (\<lambda>e. fst e \<noteq> name) es))"

section \<open>run\_command\<close>

definition run_command :: "shell \<Rightarrow> string \<Rightarrow> string \<Rightarrow> world \<Rightarrow> bool \<times> world" where
  "run_command sh command description w =
     (let w1 = print (''Running: '' @ (if description \<noteq> [] then description else command)) w
      in case sh command (mach w1) of
           (Completed stdout, m) \<Rightarrow>
             (let w2 = log_event (Shell command True) (w1\<lparr>mach := m\<rparr>);
                  w3 = (if stdout \<noteq> [] then print stdout w2 else w2)
              in (True, w3))
         | (CalledProcessError e stderr, m) \<Rightarrow>
             (let w2 = log_event (Shell command False) (w1\<lparr>mach := m\<rparr>);
                  w3 = print (''Command execution error: '' @ e) w2;
                  w4 = (if stderr \<noteq> [] then print (''Stderr: '' @ stderr) w3 else w3)
              in (False, w4)))"

section \<open>clean\_build\<close>

text \<open>The first loop: \<^verbatim>\<open>for dir_name in dirs_to_clean\<close>. An exception leaves the loop
  with the world as it is by then.\<close>

fun clean_dirs :: "string list \<Rightarrow> world \<Rightarrow> (exn + unit) \<times> world" where
  "clean_dirs [] w = (Inr (), w)"
| "clean_dirs (dir_name # rest) w =
     (if os_path_exists dir_name w then
        (let w1 = print (''Removing directory: '' @ dir_name) w
         in case rmtree dir_name (fs (mach w1)) of
              Inl e \<Rightarrow> (Inl e, w1)
            | Inr es \<Rightarrow> clean_dirs rest (w1\<lparr>mach := (mach w1)\<lparr>fs := es\<rparr>\<rparr>))
      else clean_dirs rest w)"

text \<open>
  The body of the second loop, for one directory \<open>root\<close> that \<^verbatim>\<open>os.walk\<close> yields:
  \<^verbatim>\<open>for dir_name in dirs[:]\<close> runs over a copy of \<open>dirs\<close>, and the state is the entries
  of \<open>root\<close>, the list \<open>dirs\<close> itself, and the output.
\<close>

fun walk_body :: "string \<Rightarrow> string list \<Rightarrow> dir \<times> string list \<times> string list
                    \<Rightarrow> (exn + unit) \<times> dir \<times> string list \<times> string list" where
  "walk_body root [] s = (Inr (), s)"
| "walk_body root (dir_name # rest) (es, dirs, lines) =
     (if dir_name = ''__pycache__'' then
        (let pycache_path = join root dir_name;
             out1 = lines @ [''Removing: '' @ pycache_path]
         in case rmtree dir_name es of
              Inl e \<Rightarrow> (Inl e, es, dirs, out1)
            | Inr es1 \<Rightarrow> walk_body root rest (es1, remove1 dir_name dirs, out1))
      else walk_body root rest (es, dirs, lines))"

text \<open>
  \<^verbatim>\<open>os.walk('.')\<close>, top-down: for the directory \<open>root\<close> with entries \<open>es\<close> it lists
  the names of the subdirectories (\<open>dirs\<close>), runs the loop body, and then walks, in
  listing order, every subdirectory whose name the body left in \<open>dirs\<close>. The body
  only touches entries of \<open>root\<close>, so the walk of a subdirectory works on that
  subdirectory's entries and the result is put back in its place. An exception ends the
  walk, with the deletions made so far.
\<close>

function walk :: "string \<Rightarrow> dir \<Rightarrow> string list \<Rightarrow> (exn + unit) \<times> dir \<times> string list"
  and walk_subs :: "string \<Rightarrow> string list \<Rightarrow> dir \<Rightarrow> string list
                      \<Rightarrow> (exn + unit) \<times> dir \<times> string list"
where
  "walk root es lines =
     (let dirs = map fst (filter (\<lambda>e. is_dir (snd e)) es)
      in case walk_body root dirs (es, dirs, lines) of
           (Inl e, es1, dirs1, out1) \<Rightarrow> (Inl e, es1, out1)
         | (Inr u, es1, dirs1, out1) \<Rightarrow> walk_subs root dirs1 es1 out1)"
| "walk_subs root dirs [] lines = (Inr (), [], lines)"
| "walk_subs root dirs ((name, File) # es) lines =
     (case walk_subs root dirs es lines of (r, es1, out1) \<Rightarrow> (r, (name, File) # es1, out1))"
| "walk_subs root dirs ((name, Dir sub) # es) lines =
     (if name \<in> set dirs then
        (case walk (join root name) sub lines of
           (Inl e, sub1, out1) \<Rightarrow> (Inl e, (name, Dir sub1) # es, out1)
         | (Inr u, sub1, out1) \<Rightarrow>
             (case walk_subs root dirs es out1 of
                (r, es1, out2) \<Rightarrow> (r, (name, Dir sub1) # es1, out2)))
      else (case walk_subs root dirs es lines of
              (r, es1, out1) \<Rightarrow> (r, (name, Dir sub) # es1, out1)))"
  by pat_completeness auto
termination
proof -
  let ?f = "size_prod (\<lambda>_. 0) size :: string \<times> node \<Rightarrow> nat"
  have filter_le: "size_list ?f (filter P es) \<le> size_list ?f es" for P es
    by (induction es) auto
  have rmtree_le: "size_list ?f es' \<le> size_list ?f es" if "rmtree n es = Inr es'" for n es es'
    using that by (auto simp: rmtree_def filter_le split: option.splits node.splits)
  have body_le: "size_list ?f es' \<le> size_list ?f es"
    if "walk_body root ds (es, dirs, lines) = (r, es', dirs', lines')"
    for root ds es dirs lines r es' dirs' lines'
    using that
  proof (induction ds arbitrary: es dirs lines)
    case Nil
    then show ?case by simp
  next
    case (Cons d ds)
    show ?case
    proof (cases "d = ''__pycache__''")
      case False
      with Cons show ?thesis by simp
    next
      case True
      show ?thesis
      proof (cases "rmtree d es")
        case (Inl e)
        with True Cons.prems show ?thesis by (simp add: Let_def)
      next
        case (Inr es1)
        with True Cons.prems have "size_list ?f es' \<le> size_list ?f es1"
          by (auto simp: Let_def dest: Cons.IH)
        with rmtree_le[OF Inr] show ?thesis by simp
      qed
    qed
  qed
  show ?thesis
    apply (relation "measure (\<lambda>x. case x of
                        Inl (root, es, lines) \<Rightarrow> 2 * size (Dir es) + 1
                      | Inr (root, dirs, es, lines) \<Rightarrow> 2 * size (Dir es))")
    apply (auto dest!: body_le sym[of "(_, _)" "walk_body _ _ _"])
    done
qed

definition clean_build :: "world \<Rightarrow> (exn + unit) \<times> world" where
  "clean_build w =
     (let w0 = log_event (Phase Clean) w;
          dirs_to_clean = [''build'', ''dist'', ''mcsrvstatus.egg-info'']
      in case clean_dirs dirs_to_clean w0 of
           (Inl e, w1) \<Rightarrow> (Inl e, w1)
         | (Inr u, w1) \<Rightarrow>
             (case walk ''.'' (fs (mach w1)) (out w1) of
                (r, es, out1) \<Rightarrow> (r, w1\<lparr>mach := (mach w1)\<lparr>fs := es\<rparr>, out := out1\<rparr>)))"

section \<open>The phases that shell out\<close>

definition build_package :: "shell \<Rightarrow> world \<Rightarrow> bool \<times> world" where
  "build_package sh w =
     (let w0 = log_event (Phase Build) w;
          w1 = print ''Building package...'' w0
      in case run_command sh ''python setup.py sdist'' ''Creating source distribution'' w1 of
           (ok1, w2) \<Rightarrow>
             if \<not> ok1 then (False, w2)
             else (case run_command sh ''python setup.py bdist_wheel'' ''Creating wheel package'' w2 of
                     (ok2, w3) \<Rightarrow> if \<not> ok2 then (False, w3) else (True, w3)))"

definition install_package :: "shell \<Rightarrow> world \<Rightarrow> bool \<times> world" where
  "install_package sh w =
     (let w0 = log_event (Phase Install) w;
          w1 = print ''Installing package in development mode...'' w0
      in run_command sh ''pip install -e .'' ''Installing in development mode'' w1)"

definition run_tests :: "shell \<Rightarrow> world \<Rightarrow> bool \<times> world" where
  "run_tests sh w =
     (let w0 = log_event (Phase Test) w;
          w1 = print ''Running tests...'' w0
      in run_command sh ''python -m pytest tests/ -v'' ''Running tests'' w1)"

text \<open>\<^verbatim>\<open>import name\<close> raises \<^verbatim>\<open>ImportError\<close> when the module is not installed.\<close>

definition import_ok :: "string \<Rightarrow> world \<Rightarrow> bool" where
  "import_ok name w = (name \<in> set (modules (mach w)))"

text \<open>The check mark and the cross of the two messages are the UTF-8 bytes of U+2713 and
  U+2717.\<close>

definition check_mark :: string where
  "check_mark = [CHR 0xE2, CHR 0x9C, CHR 0x93]"

definition cross_mark :: string where
  "cross_mark = [CHR 0xE2, CHR 0x9C, CHR 0x97]"

text \<open>The second \<^verbatim>\<open>try\<close> block of \<^verbatim>\<open>check_requirements\<close> and its
  \<^verbatim>\<open>return True\<close>; the first block falls through to it.\<close>

definition check_aiohttp :: "shell \<Rightarrow> world \<Rightarrow> bool \<times> world" where
  "check_aiohttp sh w =
     (if import_ok ''aiohttp'' w then
        (let w1 = log_event (Import ''aiohttp'' True) w;
             w2 = print (check_mark @ '' aiohttp installed'') w1
         in (True, w2))
      else
        (let w1 = log_event (Import ''aiohttp'' False) w;
             w2 = print (cross_mark @ '' aiohttp not installed'') w1;
             w3 = print ''Installing aiohttp...'' w2
         in case run_command sh ''pip install aiohttp'' ''Installing aiohttp'' w3 of
              (ok, w4) \<Rightarrow> if \<not> ok then (False, w4) else (True, w4)))"

definition check_requirements :: "shell \<Rightarrow> world \<Rightarrow> bool \<times> world" where
  "check_requirements sh w =
     (let w0 = log_event (Phase Check) w;
          w1 = print ''Checking dependencies...'' w0
      in if import_ok ''requests'' w1 then
           (let w2 = log_event (Import ''requests'' True) w1;
                w3 = print (check_mark @ '' requests installed'') w2
            in check_aiohttp sh w3)
         else
           (let w2 = log_event (Import ''requests'' False) w1;
                w3 = print (cross_mark @ '' requests not installed'') w2;
                w4 = print ''Installing requests...'' w3
            in case run_command sh ''pip install requests'' ''Installing requests'' w4 of
                 (ok, w5) \<Rightarrow> if \<not> ok then (False, w5) else check_aiohttp sh w5))"

section \<open>main\<close>

text \<open>An exception of \<open>clean_build\<close> is caught nowhere: it ends \<open>main\<close>.\<close>

definition and_then :: "(exn + unit) \<times> world \<Rightarrow> (world \<Rightarrow> (exn + unit) \<times> world)
                          \<Rightarrow> (exn + unit) \<times> world" where
  "and_then r k = (case r of (Inl e, w) \<Rightarrow> (Inl e, w) | (Inr u, w) \<Rightarrow> k w)"

definition backslash_n :: string where
  "backslash_n = [CHR 0x5C, CHR ''n'']"

definition main :: "shell \<Rightarrow> string list \<Rightarrow> world \<Rightarrow> (exn + unit) \<times> world" where
  "main sh argv w =
     (let w1 = print ''Building mcsrvstatus library'' w;
          w2 = print (replicate 50 (CHR ''='')) w1
      in if \<not> os_path_exists ''setup.py'' w2 then
           (let w3 = print ''Error: setup.py file not found!'' w2;
                w4 = print ''Make sure you are in the project root directory.'' w3
            in (Inl (SystemExit 1), w4))
         else if length argv > 1 then
           (let command = argv ! 1
            in if command = ''clean'' then
                 and_then (clean_build w2) (\<lambda>w3. (Inr (), w3))
               else if command = ''build'' then
                 and_then (clean_build w2) (\<lambda>w3.
                   case check_requirements sh w3 of
                     (ok, w4) \<Rightarrow>
                       if ok then (case build_package sh w4 of (b, w5) \<Rightarrow> (Inr (), w5))
                       else (Inr (), w4))
               else if command = ''install'' then
                 (case check_requirements sh w2 of
                    (ok, w3) \<Rightarrow>
                      if ok then (case install_package sh w3 of (b, w4) \<Rightarrow> (Inr (), w4))
                      else (Inr (), w3))
               else if command = ''test'' then
                 (case check_requirements sh w2 of
                    (ok, w3) \<Rightarrow>
                      if ok then (case run_tests sh w3 of (b, w4) \<Rightarrow> (Inr (), w4))
                      else (Inr (), w3))
               else if command = ''all'' then
                 and_then (clean_build w2) (\<lambda>w3.
                   case check_requirements sh w3 of
                     (ok1, w4) \<Rightarrow>
                       if ok1 then
                         (case build_package sh w4 of
                            (ok2, w5) \<Rightarrow>
                              if ok2 then
                                (case install_package sh w5 of
                                   (ok3, w6) \<Rightarrow>
                                     if ok3 then (case run_tests sh w6 of (b, w7) \<Rightarrow> (Inr (), w7))
                                     else (Inr (), w6))
                              else (Inr (), w5))
                       else (Inr (), w4))
               else
                 (let w3 = print (''Unknown command: '' @ command) w2;
                      w4 = print ''Available commands: clean, build, install, test, all'' w3
                  in (Inr (), w4)))
         else
           and_then (clean_build w2) (\<lambda>w3.
             case check_requirements sh w3 of
               (ok1, w4) \<Rightarrow>
                 if ok1 then
                   (case build_package sh w4 of
                      (ok2, w5) \<Rightarrow>
                        if ok2 then
                          (let w6 = print (backslash_n @ ''Build completed successfully!'') w5;
                               w7 = print (backslash_n @ ''To install run:'') w6;
                               w8 = print ''python build.py install'' w7;
                               w9 = print (backslash_n @ ''To run tests:'') w8;
                               w10 = print ''python build.py test'' w9
                           in (Inr (), w10))
                        else (Inr (), w5))
                 else (Inr (), w4)))"

text \<open>The exit status of the process that runs \<open>main\<close> as the script does: 0 when
  \<open>main\<close> returns, the argument of \<^verbatim>\<open>sys.exit\<close>, and 1 for an exception that
  nothing catches.\<close>

fun exit_status :: "exn + unit \<Rightarrow> int" where
  "exit_status (Inr u) = 0"
| "exit_status (Inl (SystemExit n)) = n"
| "exit_status (Inl e) = 1"

section \<open>Vocabulary of the statements\<close>

text \<open>Whether a command line succeeds on a machine, and the machine it leaves.\<close>

definition succeeds :: "shell \<Rightarrow> string \<Rightarrow> machine \<Rightarrow> bool" where
  "succeeds sh command m = (case fst (sh command m) of Completed _ \<Rightarrow> True | CalledProcessError _ _ \<Rightarrow> False)"

definition after :: "shell \<Rightarrow> string \<Rightarrow> machine \<Rightarrow> machine" where
  "after sh command m = snd (sh command m)"

text \<open>The machine on which \<open>check_requirements\<close> tries \<^verbatim>\<open>import aiohttp\<close>: the one it
  started on, or the one \<^verbatim>\<open>pip install requests\<close> left.\<close>

definition mach_at_aiohttp :: "shell \<Rightarrow> machine \<Rightarrow> machine" where
  "mach_at_aiohttp sh m =
     (if ''requests'' \<in> set (modules m) then m else after sh ''pip install requests'' m)"

text \<open>What \<open>check_requirements\<close> logs, from whether \<^verbatim>\<open>requests\<close> is found, whether its
  installer succeeds, and the same for \<^verbatim>\<open>aiohttp\<close>.\<close>

definition check_trace :: "bool \<Rightarrow> bool \<Rightarrow> bool \<Rightarrow> bool \<Rightarrow> event list" where
  "check_trace req r1 aio r2 =
     [Phase Check] @
     (if req then [Import ''requests'' True]
      else [Import ''requests'' False, Shell ''pip install requests'' r1]) @
     (if req \<or> r1
      then (if aio then [Import ''aiohttp'' True]
            else [Import ''aiohttp'' False, Shell ''pip install aiohttp'' r2])
      else [])"

text \<open>Two shells and two worlds, for the instances.\<close>

definition shell_failing :: shell where
  "shell_failing command m = (CalledProcessError ''returned non-zero exit status 1.'' ''boom'', m)"

definition shell_ok :: shell where
  "shell_ok command m = (Completed ''done'', m)"

definition world_bare :: world where
  "world_bare = \<lparr>mach = \<lparr>fs = [(''setup.py'', File)], modules = []\<rparr>, out = [], events = []\<rparr>"

definition world_libs :: world where
  "world_libs = \<lparr>mach = \<lparr>fs = [(''setup.py'', File)], modules = [''requests'', ''aiohttp'']\<rparr>,
                  out = [], events = []\<rparr>"

text \<open>The world after the two lines \<open>main\<close> prints first.\<close>

definition started :: "world \<Rightarrow> world" where
  "started w = print (replicate 50 (CHR ''='')) (print ''Building mcsrvstatus library'' w)"

text \<open>
  Two definitions that follow the specification, not the source: \<open>spec_phases_of\<close> is
  the command-to-phase table, and \<open>spec_run_chain\<close> is the dispatcher as the specification
  words it: the phases of a row run in order (\<open>run_phase\<close> calls the phase function of
  the source), and the chain stops at the first phase that reports failure or raises.
  \<open>main\<close> is compared with them.
\<close>

definition spec_phases_of :: "string \<Rightarrow> phase list" where
  "spec_phases_of command =
     (if command = ''clean'' then [Clean]
      else if command = ''build'' then [Clean, Check, Build]
      else if command = ''install'' then [Check, Install]
      else if command = ''test'' then [Check, Test]
      else if command = ''all'' then [Clean, Check, Build, Install, Test]
      else [])"

fun run_phase :: "shell \<Rightarrow> phase \<Rightarrow> world \<Rightarrow> (exn + bool) \<times> world" where
  "run_phase sh Clean w = (case clean_build w of (Inl e, w1) \<Rightarrow> (Inl e, w1) | (Inr u, w1) \<Rightarrow> (Inr True, w1))"
| "run_phase sh Check w = (case check_requirements sh w of (ok, w1) \<Rightarrow> (Inr ok, w1))"
| "run_phase sh Build w = (case build_package sh w of (ok, w1) \<Rightarrow> (Inr ok, w1))"
| "run_phase sh Install w = (case install_package sh w of (ok, w1) \<Rightarrow> (Inr ok, w1))"
| "run_phase sh Test w = (case run_tests sh w of (ok, w1) \<Rightarrow> (Inr ok, w1))"

fun spec_run_chain :: "shell \<Rightarrow> phase list \<Rightarrow> world \<Rightarrow> (exn + unit) \<times> world" where
  "spec_run_chain sh [] w = (Inr (), w)"
| "spec_run_chain sh (p # ps) w =
     (case run_phase sh p w of
        (Inl e, w1) \<Rightarrow> (Inl e, w1)
      | (Inr ok, w1) \<Rightarrow> if ok then spec_run_chain sh ps w1 else (Inr (), w1))"

text \<open>The phases entered, in order, as the log has them.\<close>

fun phase_log :: "event list \<Rightarrow> phase list" where
  "phase_log [] = []"
| "phase_log (Phase p # evs) = p # phase_log evs"
| "phase_log (e # evs) = phase_log evs"

text \<open>The world in which a command's dependency check runs: after \<open>clean_build\<close> when
  the command's row starts with it.\<close>

definition world_at_check :: "string \<Rightarrow> world \<Rightarrow> world" where
  "world_at_check command w =
     (if Clean \<in> set (spec_phases_of command) then snd (clean_build (started w)) else started w)"

text \<open>The five lines printed after a successful default build.\<close>

definition guidance :: "string list" where
  "guidance = [backslash_n @ ''Build completed successfully!'', backslash_n @ ''To install run:'',
               ''python build.py install'', backslash_n @ ''To run tests:'',
               ''python build.py test'']"

text \<open>
  What \<open>clean_build\<close> is meant to leave: the tree without its directories named
  \<^verbatim>\<open>__pycache__\<close>, at any depth (\<open>prune\<close>), and the lines it prints for them
  (\<open>announce\<close>). The walk is compared with these.
\<close>

definition doomed_entry :: "string \<times> node \<Rightarrow> bool" where
  "doomed_entry e = (fst e = ''__pycache__'' \<and> is_dir (snd e))"

fun prune_node :: "node \<Rightarrow> node" where
  "prune_node File = File"
| "prune_node (Dir es) =
     Dir (map (\<lambda>e. (fst e, prune_node (snd e))) (filter (\<lambda>e. \<not> doomed_entry e) es))"

definition prune :: "dir \<Rightarrow> dir" where
  "prune es = map (\<lambda>e. (fst e, prune_node (snd e))) (filter (\<lambda>e. \<not> doomed_entry e) es)"

fun announce :: "string \<Rightarrow> node \<Rightarrow> string list" where
  "announce root File = []"
| "announce root (Dir es) =
     map (\<lambda>e. ''Removing: '' @ join root (fst e)) (filter doomed_entry es) @
     concat (map (\<lambda>e. announce (join root (fst e)) (snd e)) (filter (\<lambda>e. \<not> doomed_entry e) es))"

text \<open>
  Paths are lists of names, from the working directory. \<open>lookup\<close> follows a path,
  \<open>kind_at\<close> says whether a path exists and whether it is a directory, and
  \<open>removed_by_clean\<close> is the set the specification names: a path is removed when it is,
  or lies under, one of the three build directories of the working directory or a
  directory named \<^verbatim>\<open>__pycache__\<close>.
\<close>

fun lookup :: "node \<Rightarrow> string list \<Rightarrow> node option" where
  "lookup nd [] = Some nd"
| "lookup File (n # p) = None"
| "lookup (Dir es) (n # p) = (case map_of es n of None \<Rightarrow> None | Some x \<Rightarrow> lookup x p)"

definition dir_at :: "node \<Rightarrow> string list \<Rightarrow> bool" where
  "dir_at nd p = (case lookup nd p of None \<Rightarrow> False | Some x \<Rightarrow> is_dir x)"

definition kind_at :: "dir \<Rightarrow> string list \<Rightarrow> bool option" where
  "kind_at es p = map_option is_dir (lookup (Dir es) p)"

definition removed_by_clean :: "dir \<Rightarrow> string list \<Rightarrow> bool" where
  "removed_by_clean es p =
     (\<exists>q \<in> set (prefixes p).
        dir_at (Dir es) q \<and>
        (q \<in> {[''build''], [''dist''], [''mcsrvstatus.egg-info'']} \<or>
         (q \<noteq> [] \<and> last q = ''__pycache__'')))"

text \<open>The same set, by recursion along the path: for the proofs.\<close>

fun under_pycache :: "node \<Rightarrow> string list \<Rightarrow> bool" where
  "under_pycache nd [] = False"
| "under_pycache File (n # p) = False"
| "under_pycache (Dir es) (n # p) =
     (case map_of es n of
        None \<Rightarrow> False
      | Some x \<Rightarrow> (n = ''__pycache__'' \<and> is_dir x) \<or> under_pycache x p)"

definition build_dirs :: "string set" where
  "build_dirs = {''build'', ''dist'', ''mcsrvstatus.egg-info''}"

definition top_removed :: "dir \<Rightarrow> string list \<Rightarrow> bool" where
  "top_removed es p =
     (case p of
        [] \<Rightarrow> False
      | n # _ \<Rightarrow> n \<in> build_dirs \<and>
                 (case map_of es n of None \<Rightarrow> False | Some x \<Rightarrow> is_dir x))"

text \<open>Three more worlds: a project after a build, a project root where \<^verbatim>\<open>build\<close> is a
  regular file, and a directory that is not a project root.\<close>

definition world_project :: world where
  "world_project =
     \<lparr>mach = \<lparr>fs = [(''setup.py'', File),
                    (''build'', Dir [(''lib'', Dir [(''api.py'', File)])]),
                    (''dist'', Dir [(''mcsrvstatus.whl'', File)]),
                    (''mcsrvstatus.egg-info'', Dir [(''PKG-INFO'', File)]),
                    (''mcsrvstatus'', Dir [(''__pycache__'', Dir [(''api.pyc'', File)]),
                                           (''api.py'', File),
                                           (''sub'', Dir [(''__pycache__'', Dir [])])]),
                    (''__pycache__'', Dir []),
                    (''tests'', Dir [(''build'', Dir [])])],
              modules = []\<rparr>,
      out = [], events = []\<rparr>"

definition world_file_build :: world where
  "world_file_build =
     \<lparr>mach = \<lparr>fs = [(''setup.py'', File), (''build'', File)], modules = []\<rparr>,
      out = [], events = []\<rparr>"

definition world_elsewhere :: world where
  "world_elsewhere = \<lparr>mach = \<lparr>fs = [(''README.md'', File)], modules = []\<rparr>, out = [], events = []\<rparr>"

section \<open>The command primitive\<close>

lemma mach_print [simp]: "mach (print s w) = mach w"
  by (simp add: print_def)

lemma events_print [simp]: "events (print s w) = events w"
  by (simp add: print_def)

lemma out_print [simp]: "out (print s w) = out w @ [s]"
  by (simp add: print_def)

lemma mach_log_event [simp]: "mach (log_event e w) = mach w"
  by (simp add: log_event_def)

lemma events_log_event [simp]: "events (log_event e w) = events w @ [e]"
  by (simp add: log_event_def)

lemma out_log_event [simp]: "out (log_event e w) = out w"
  by (simp add: log_event_def)

lemma run_command_fst [simp]:
  "fst (run_command sh c d w) = succeeds sh c (mach w)"
  by (simp add: run_command_def succeeds_def Let_def split: prod.splits proc_outcome.splits)

lemma run_command_mach [simp]:
  "mach (snd (run_command sh c d w)) = after sh c (mach w)"
  by (simp add: run_command_def after_def Let_def split: prod.splits proc_outcome.splits)

lemma run_command_events [simp]:
  "events (snd (run_command sh c d w)) = events w @ [Shell c (succeeds sh c (mach w))]"
  by (simp add: run_command_def succeeds_def Let_def split: prod.splits proc_outcome.splits)

section \<open>build\_package\<close>

text \<open>
  C4. \<open>build_package\<close> hands \<^verbatim>\<open>python setup.py sdist\<close> to the shell first. When that
  fails it returns \<open>False\<close> and no second command is run; when it succeeds,
  \<^verbatim>\<open>python setup.py bdist_wheel\<close> is run next, on the machine the first command left,
  and nothing else. The result is \<open>True\<close> exactly when both commands succeeded.
\<close>

theorem build_package_sdist_then_wheel:
  "let b1 = succeeds sh ''python setup.py sdist'' (mach w);
       b2 = succeeds sh ''python setup.py bdist_wheel'' (after sh ''python setup.py sdist'' (mach w))
   in events (snd (build_package sh w)) =
        events w @ [Phase Build, Shell ''python setup.py sdist'' b1]
                 @ (if b1 then [Shell ''python setup.py bdist_wheel'' b2] else [])
      \<and> fst (build_package sh w) = (b1 \<and> b2)"
  by (simp add: build_package_def Let_def case_prod_beta)

section \<open>check\_requirements\<close>

lemma check_aiohttp_fst:
  "fst (check_aiohttp sh w) =
     (''aiohttp'' \<in> set (modules (mach w)) \<or> succeeds sh ''pip install aiohttp'' (mach w))"
  by (simp add: check_aiohttp_def import_ok_def Let_def case_prod_beta)

lemma check_aiohttp_events:
  "events (snd (check_aiohttp sh w)) =
     events w @ (if ''aiohttp'' \<in> set (modules (mach w)) then [Import ''aiohttp'' True]
                 else [Import ''aiohttp'' False,
                       Shell ''pip install aiohttp'' (succeeds sh ''pip install aiohttp'' (mach w))])"
  by (simp add: check_aiohttp_def import_ok_def Let_def case_prod_beta)

lemma check_requirements_fst:
  "fst (check_requirements sh w) =
     ((''requests'' \<in> set (modules (mach w)) \<or> succeeds sh ''pip install requests'' (mach w)) \<and>
      (''aiohttp'' \<in> set (modules (mach_at_aiohttp sh (mach w))) \<or>
       succeeds sh ''pip install aiohttp'' (mach_at_aiohttp sh (mach w))))"
  by (simp add: check_requirements_def import_ok_def Let_def case_prod_beta
                check_aiohttp_fst mach_at_aiohttp_def)

lemma check_requirements_events:
  "events (snd (check_requirements sh w)) =
     events w @
       check_trace (''requests'' \<in> set (modules (mach w)))
                   (succeeds sh ''pip install requests'' (mach w))
                   (''aiohttp'' \<in> set (modules (mach_at_aiohttp sh (mach w))))
                   (succeeds sh ''pip install aiohttp'' (mach_at_aiohttp sh (mach w)))"
  by (simp add: check_requirements_def import_ok_def Let_def case_prod_beta
                check_aiohttp_events mach_at_aiohttp_def check_trace_def)

text \<open>
  C3. Let \<open>evs\<close> be what \<open>check_requirements\<close> adds to the log. The only commands in it
  are the two installers; the installer of a library is there only when the import of that
  library failed (\<open>req\<close>: \<^verbatim>\<open>requests\<close> is found; \<open>aio\<close>: \<^verbatim>\<open>aiohttp\<close> is found, on the
  machine it is looked for). The result is \<open>False\<close> exactly when an installer that was
  run failed, that is, when a missing library could not be installed. When both libraries
  are found the result is \<open>True\<close> and no command is run.
\<close>

theorem check_requirements_installs_what_is_missing:
  "let m = mach w;
       req = (''requests'' \<in> set (modules m));
       m1 = mach_at_aiohttp sh m;
       aio = (''aiohttp'' \<in> set (modules m1));
       ok = fst (check_requirements sh w);
       evs = drop (length (events w)) (events (snd (check_requirements sh w)))
   in events (snd (check_requirements sh w)) = events w @ evs
      \<and> (\<forall>c b. Shell c b \<in> set evs \<longrightarrow> c = ''pip install requests'' \<or> c = ''pip install aiohttp'')
      \<and> ((\<exists>b. Shell ''pip install requests'' b \<in> set evs) \<longrightarrow> \<not> req)
      \<and> ((\<exists>b. Shell ''pip install aiohttp'' b \<in> set evs) \<longrightarrow> \<not> aio)
      \<and> (\<not> ok) = (\<exists>c. Shell c False \<in> set evs)
      \<and> ok = ((req \<or> succeeds sh ''pip install requests'' m) \<and>
                (aio \<or> succeeds sh ''pip install aiohttp'' m1))
      \<and> (req \<and> aio \<longrightarrow> ok \<and> (\<forall>c b. Shell c b \<notin> set evs))"
proof -
  define req where "req = (''requests'' \<in> set (modules (mach w)))"
  define r1 where "r1 = succeeds sh ''pip install requests'' (mach w)"
  define aio where "aio = (''aiohttp'' \<in> set (modules (mach_at_aiohttp sh (mach w))))"
  define r2 where "r2 = succeeds sh ''pip install aiohttp'' (mach_at_aiohttp sh (mach w))"
  define evs where "evs = drop (length (events w)) (events (snd (check_requirements sh w)))"
  have ok: "fst (check_requirements sh w) = ((req \<or> r1) \<and> (aio \<or> r2))"
    unfolding req_def r1_def aio_def r2_def by (rule check_requirements_fst)
  have app: "events (snd (check_requirements sh w)) = events w @ check_trace req r1 aio r2"
    unfolding req_def r1_def aio_def r2_def by (rule check_requirements_events)
  have evs: "evs = check_trace req r1 aio r2"
    unfolding evs_def app by simp
  have neq: "''pip install requests'' \<noteq> ''pip install aiohttp''" by simp
  have app': "events (snd (check_requirements sh w)) = events w @ evs"
    unfolding evs app ..
  have "events (snd (check_requirements sh w)) = events w @ evs
      \<and> (\<forall>c b. Shell c b \<in> set evs \<longrightarrow> c = ''pip install requests'' \<or> c = ''pip install aiohttp'')
      \<and> ((\<exists>b. Shell ''pip install requests'' b \<in> set evs) \<longrightarrow> \<not> req)
      \<and> ((\<exists>b. Shell ''pip install aiohttp'' b \<in> set evs) \<longrightarrow> \<not> aio)
      \<and> (\<not> fst (check_requirements sh w)) = (\<exists>c. Shell c False \<in> set evs)
      \<and> fst (check_requirements sh w) = ((req \<or> r1) \<and> (aio \<or> r2))
      \<and> (req \<and> aio \<longrightarrow> fst (check_requirements sh w) \<and> (\<forall>c b. Shell c b \<notin> set evs))"
    apply (simp only: ok app' evs)
    apply (cases req; cases r1; cases aio; cases r2)
                   apply (simp_all add: neq check_trace_def)
    done
  then show ?thesis
    unfolding Let_def req_def r1_def aio_def r2_def evs_def .
qed

theorem check_requirements_installs_what_is_missing_witness:
  "fst (check_requirements shell_failing world_libs)
   \<and> events (snd (check_requirements shell_failing world_libs)) =
       [Phase Check, Import ''requests'' True, Import ''aiohttp'' True]
   \<and> fst (check_requirements shell_ok world_bare)
   \<and> Shell ''pip install requests'' True \<in> set (events (snd (check_requirements shell_ok world_bare)))
   \<and> Shell ''pip install aiohttp'' True \<in> set (events (snd (check_requirements shell_ok world_bare)))
   \<and> ''requests'' \<notin> set (modules (mach world_bare))
   \<and> \<not> fst (check_requirements shell_failing world_bare)
   \<and> Shell ''pip install requests'' False \<in> set (events (snd (check_requirements shell_failing world_bare)))"
  using check_requirements_installs_what_is_missing [of world_libs shell_failing]
        check_requirements_installs_what_is_missing [of world_bare shell_ok]
        check_requirements_installs_what_is_missing [of world_bare shell_failing]
  by (simp add: check_requirements_events check_requirements_fst check_trace_def
                mach_at_aiohttp_def succeeds_def after_def
                shell_failing_def shell_ok_def world_bare_def world_libs_def)

text \<open>
  C9. The order is fixed: the log of \<open>check_requirements\<close> is always \<open>check_trace\<close>, in
  which the import of \<^verbatim>\<open>requests\<close> and its installer come before anything about
  \<^verbatim>\<open>aiohttp\<close>. When \<^verbatim>\<open>requests\<close> is missing and \<^verbatim>\<open>pip install requests\<close> fails, the
  result is \<open>False\<close> and the log ends there: \<^verbatim>\<open>aiohttp\<close> is not imported and its
  installer is not run, and the machine is the one the failed installer left.
\<close>

theorem check_requirements_stops_at_requests:
  "events (snd (check_requirements sh w)) =
     events w @
       check_trace (''requests'' \<in> set (modules (mach w)))
                   (succeeds sh ''pip install requests'' (mach w))
                   (''aiohttp'' \<in> set (modules (mach_at_aiohttp sh (mach w))))
                   (succeeds sh ''pip install aiohttp'' (mach_at_aiohttp sh (mach w)))
   \<and> (''requests'' \<notin> set (modules (mach w)) \<and>
        \<not> succeeds sh ''pip install requests'' (mach w) \<longrightarrow>
          fst (check_requirements sh w) = False
          \<and> events (snd (check_requirements sh w)) =
              events w @ [Phase Check, Import ''requests'' False, Shell ''pip install requests'' False]
          \<and> mach (snd (check_requirements sh w)) = after sh ''pip install requests'' (mach w))"
proof (intro conjI impI)
  show "events (snd (check_requirements sh w)) =
     events w @
       check_trace (''requests'' \<in> set (modules (mach w)))
                   (succeeds sh ''pip install requests'' (mach w))
                   (''aiohttp'' \<in> set (modules (mach_at_aiohttp sh (mach w))))
                   (succeeds sh ''pip install aiohttp'' (mach_at_aiohttp sh (mach w)))"
    by (rule check_requirements_events)
next
  assume a: "''requests'' \<notin> set (modules (mach w)) \<and>
             \<not> succeeds sh ''pip install requests'' (mach w)"
  then show "fst (check_requirements sh w) = False"
    by (simp add: check_requirements_def import_ok_def Let_def case_prod_beta)
  from a show "events (snd (check_requirements sh w)) =
              events w @ [Phase Check, Import ''requests'' False, Shell ''pip install requests'' False]"
    by (simp add: check_requirements_def import_ok_def Let_def case_prod_beta)
  from a show "mach (snd (check_requirements sh w)) = after sh ''pip install requests'' (mach w)"
    by (simp add: check_requirements_def import_ok_def Let_def case_prod_beta)
qed

theorem check_requirements_stops_at_requests_witness:
  "''requests'' \<notin> set (modules (mach world_bare))
   \<and> \<not> succeeds shell_failing ''pip install requests'' (mach world_bare)
   \<and> fst (check_requirements shell_failing world_bare) = False
   \<and> events (snd (check_requirements shell_failing world_bare)) =
       [Phase Check, Import ''requests'' False, Shell ''pip install requests'' False]"
proof -
  have a: "''requests'' \<notin> set (modules (mach world_bare))"
    by (simp add: world_bare_def)
  have b: "\<not> succeeds shell_failing ''pip install requests'' (mach world_bare)"
    by (simp add: succeeds_def shell_failing_def)
  have c: "events world_bare = []"
    by (simp add: world_bare_def)
  from check_requirements_stops_at_requests [of shell_failing world_bare] a b
  have "fst (check_requirements shell_failing world_bare) = False
        \<and> events (snd (check_requirements shell_failing world_bare)) =
            events world_bare @ [Phase Check, Import ''requests'' False,
                                 Shell ''pip install requests'' False]"
    by blast
  with a b show ?thesis by (simp add: c)
qed

section \<open>The dispatcher\<close>

lemma main_missing_marker:
  "\<not> os_path_exists ''setup.py'' w \<Longrightarrow>
     main sh argv w =
       (Inl (SystemExit 1),
        print ''Make sure you are in the project root directory.''
          (print ''Error: setup.py file not found!'' (started w)))"
  by (simp add: main_def started_def os_path_exists_def)

lemma exists_started [simp]: "os_path_exists n (started w) = os_path_exists n w"
  by (simp add: started_def os_path_exists_def)

lemma events_started [simp]: "events (started w) = events w"
  by (simp add: started_def)

lemma main_clean:
  "os_path_exists ''setup.py'' w \<Longrightarrow>
     main sh (prog # ''clean'' # extra) w = spec_run_chain sh [Clean] (started w)"
  by (simp add: main_def started_def[symmetric] and_then_def Let_def split: prod.splits sum.splits)

lemma main_build:
  "os_path_exists ''setup.py'' w \<Longrightarrow>
     main sh (prog # ''build'' # extra) w = spec_run_chain sh [Clean, Check, Build] (started w)"
  by (simp add: main_def started_def[symmetric] and_then_def Let_def split: prod.splits sum.splits)

lemma main_install:
  "os_path_exists ''setup.py'' w \<Longrightarrow>
     main sh (prog # ''install'' # extra) w = spec_run_chain sh [Check, Install] (started w)"
  by (simp add: main_def started_def[symmetric] and_then_def Let_def split: prod.splits sum.splits)

lemma main_test:
  "os_path_exists ''setup.py'' w \<Longrightarrow>
     main sh (prog # ''test'' # extra) w = spec_run_chain sh [Check, Test] (started w)"
  by (simp add: main_def started_def[symmetric] and_then_def Let_def split: prod.splits sum.splits)

lemma main_all:
  "os_path_exists ''setup.py'' w \<Longrightarrow>
     main sh (prog # ''all'' # extra) w =
       spec_run_chain sh [Clean, Check, Build, Install, Test] (started w)"
  by (simp add: main_def started_def[symmetric] and_then_def Let_def split: prod.splits sum.splits)

lemma main_unknown:
  "os_path_exists ''setup.py'' w \<Longrightarrow>
   command \<notin> {''clean'', ''build'', ''install'', ''test'', ''all''} \<Longrightarrow>
     main sh (prog # command # extra) w =
       (Inr (), print ''Available commands: clean, build, install, test, all''
                  (print (''Unknown command: '' @ command) (started w)))"
  by (simp add: main_def started_def[symmetric] Let_def)

lemma main_cong:
  assumes "(1 < length argv) = (1 < length argv')"
    and "1 < length argv \<Longrightarrow> argv ! 1 = argv' ! 1"
  shows "main sh argv w = main sh argv' w"
proof (cases "1 < length argv")
  case True
  with assms have "1 < length argv'" "argv ! 1 = argv' ! 1" by simp_all
  with True show ?thesis unfolding main_def by (simp only: if_True)
next
  case False
  with assms have "\<not> 1 < length argv'" by simp
  with False show ?thesis unfolding main_def by (simp only: if_False)
qed

lemma five_prints:
  "print e (print d (print c (print b (print a w)))) = w\<lparr>out := out w @ [a, b, c, d, e]\<rparr>"
  by (simp add: print_def)

lemma main_no_argument:
  assumes "os_path_exists ''setup.py'' w"
  shows "main sh [prog] w =
     (case clean_build (started w) of
        (Inl e, w3) \<Rightarrow> (Inl e, w3)
      | (Inr u, w3) \<Rightarrow>
          if fst (check_requirements sh w3) then
            if fst (build_package sh (snd (check_requirements sh w3))) then
              (Inr (), (snd (build_package sh (snd (check_requirements sh w3))))
                         \<lparr>out := out (snd (build_package sh (snd (check_requirements sh w3)))) @ guidance\<rparr>)
            else (Inr (), snd (build_package sh (snd (check_requirements sh w3))))
          else (Inr (), snd (check_requirements sh w3)))"
  using assms
  by (simp add: main_def started_def[symmetric] and_then_def Let_def case_prod_beta guidance_def
                five_prints
           split: sum.splits)

subsection \<open>What the phases log\<close>

lemma clean_dirs_events [simp]: "events (snd (clean_dirs ds w)) = events w"
  by (induction ds arbitrary: w) (auto simp: Let_def split: sum.splits)

lemma clean_build_events [simp]: "events (snd (clean_build w)) = events w @ [Phase Clean]"
proof -
  obtain r w1 where cd:
    "clean_dirs [''build'', ''dist'', ''mcsrvstatus.egg-info''] (log_event (Phase Clean) w) = (r, w1)"
    by (cases "clean_dirs [''build'', ''dist'', ''mcsrvstatus.egg-info''] (log_event (Phase Clean) w)")
  from clean_dirs_events[of "[''build'', ''dist'', ''mcsrvstatus.egg-info'']" "log_event (Phase Clean) w"]
  have e: "events w1 = events w @ [Phase Clean]"
    unfolding cd by simp
  show ?thesis
    unfolding clean_build_def Let_def cd
    by (cases r) (simp_all add: e split: prod.splits)
qed

lemma build_package_events:
  "events (snd (build_package sh w)) =
     events w @ [Phase Build, Shell ''python setup.py sdist'' (succeeds sh ''python setup.py sdist'' (mach w))]
       @ (if succeeds sh ''python setup.py sdist'' (mach w)
          then [Shell ''python setup.py bdist_wheel''
                  (succeeds sh ''python setup.py bdist_wheel'' (after sh ''python setup.py sdist'' (mach w)))]
          else [])"
  by (simp add: build_package_def Let_def case_prod_beta)

lemma install_package_events:
  "events (snd (install_package sh w)) =
     events w @ [Phase Install, Shell ''pip install -e .'' (succeeds sh ''pip install -e .'' (mach w))]"
  by (simp add: install_package_def Let_def)

lemma run_tests_events:
  "events (snd (run_tests sh w)) =
     events w @ [Phase Test, Shell ''python -m pytest tests/ -v''
                               (succeeds sh ''python -m pytest tests/ -v'' (mach w))]"
  by (simp add: run_tests_def Let_def)

lemma phase_log_append [simp]: "phase_log (xs @ ys) = phase_log xs @ phase_log ys"
  by (induction xs rule: phase_log.induct) simp_all

lemma phase_log_check_trace [simp]: "phase_log (check_trace req r1 aio r2) = [Check]"
  by (simp add: check_trace_def)

lemma run_phase_log:
  "phase_log (events (snd (run_phase sh p w))) = phase_log (events w) @ [p]"
proof (cases p)
  case Clean
  obtain r w1 where cb: "clean_build w = (r, w1)" by (cases "clean_build w")
  have "snd (run_phase sh Clean w) = snd (clean_build w)"
    by (cases r) (simp_all add: cb)
  with Clean show ?thesis by simp
qed (simp_all add: case_prod_beta check_requirements_events build_package_events
                   install_package_events run_tests_events)

lemma spec_run_chain_log:
  "\<exists>ran. phase_log (events (snd (spec_run_chain sh ps w))) = phase_log (events w) @ ran \<and> prefix ran ps"
proof (induction ps arbitrary: w)
  case Nil
  then show ?case by simp
next
  case (Cons p ps)
  obtain r w1 where rp: "run_phase sh p w = (r, w1)" by (cases "run_phase sh p w")
  with run_phase_log[of sh p w] have l1: "phase_log (events w1) = phase_log (events w) @ [p]" by simp
  show ?case
  proof (cases "r = Inr True")
    case True
    from Cons.IH[of w1] obtain ran where
      "phase_log (events (snd (spec_run_chain sh ps w1))) = phase_log (events w1) @ ran" "prefix ran ps"
      by blast
    with True rp l1 have
      "phase_log (events (snd (spec_run_chain sh (p # ps) w))) = phase_log (events w) @ (p # ran) \<and>
       prefix (p # ran) (p # ps)"
      by simp
    then show ?thesis by blast
  next
    case False
    with rp have "snd (spec_run_chain sh (p # ps) w) = w1"
      by (cases r) auto
    with l1 have "phase_log (events (snd (spec_run_chain sh (p # ps) w))) = phase_log (events w) @ [p] \<and>
       prefix [p] (p # ps)"
      by simp
    then show ?thesis by blast
  qed
qed

lemma spec_run_chain_check_fails:
  "\<not> fst (check_requirements sh w) \<Longrightarrow>
     phase_log (events (snd (spec_run_chain sh (Check # ps) w))) = phase_log (events w) @ [Check]"
  by (simp add: case_prod_beta check_requirements_events)

lemma spec_run_chain_clean_check_fails:
  "\<not> fst (check_requirements sh (snd (clean_build w))) \<Longrightarrow>
     phase_log (events (snd (spec_run_chain sh (Clean # Check # ps) w))) = phase_log (events w) @ [Clean]
   \<or> phase_log (events (snd (spec_run_chain sh (Clean # Check # ps) w))) = phase_log (events w) @ [Clean, Check]"
proof (cases "fst (clean_build w)")
  case (Inl e)
  then have "snd (spec_run_chain sh (Clean # Check # ps) w) = snd (clean_build w)"
    by (cases "clean_build w") simp
  then show ?thesis by simp
next
  case (Inr u)
  assume "\<not> fst (check_requirements sh (snd (clean_build w)))"
  with Inr have "snd (spec_run_chain sh (Clean # Check # ps) w) = snd (check_requirements sh (snd (clean_build w)))"
    by (cases "clean_build w") (simp add: case_prod_beta)
  then show ?thesis by (simp add: check_requirements_events)
qed

lemma main_no_argument_events:
  assumes "os_path_exists ''setup.py'' w"
  shows "events (snd (main sh [prog] w)) = events (snd (spec_run_chain sh [Clean, Check, Build] (started w)))"
proof -
  obtain r w3 where cb: "clean_build (started w) = (r, w3)" by (cases "clean_build (started w)")
  show ?thesis
    unfolding main_no_argument[OF assms]
    by (cases r) (simp_all add: cb case_prod_beta)
qed

subsection \<open>Recognized commands\<close>

text \<open>
  C1. In the project root (\<^verbatim>\<open>setup.py\<close> is there), for each of the five commands
  \<open>main\<close> is the chain of the command's row of the table: the phases in the row's order,
  stopped by the first one that fails. So the phases it enters are an initial part of the
  row. For \<^verbatim>\<open>build\<close>, \<^verbatim>\<open>install\<close>, \<^verbatim>\<open>test\<close> and \<^verbatim>\<open>all\<close>: when
  \<open>check_requirements\<close> returns \<open>False\<close>, none of \<open>build_package\<close>,
  \<open>install_package\<close> and \<open>run_tests\<close> is entered.
\<close>

theorem dispatcher_runs_listed_phases:
  assumes "os_path_exists ''setup.py'' w"
    and "command \<in> {''clean'', ''build'', ''install'', ''test'', ''all''}"
  shows "main sh (prog # command # extra) w = spec_run_chain sh (spec_phases_of command) (started w)
       \<and> (\<exists>ran. phase_log (events (snd (main sh (prog # command # extra) w))) =
                     phase_log (events w) @ ran
                 \<and> prefix ran (spec_phases_of command)
                 \<and> (command \<noteq> ''clean'' \<and> \<not> fst (check_requirements sh (world_at_check command w))
                      \<longrightarrow> Build \<notin> set ran \<and> Install \<notin> set ran \<and> Test \<notin> set ran))"
proof -
  have eq: "main sh (prog # command # extra) w = spec_run_chain sh (spec_phases_of command) (started w)"
    using assms
    by (auto simp: spec_phases_of_def main_clean main_build main_install main_test main_all)
  from spec_run_chain_log[of sh "spec_phases_of command" "started w"] obtain ran where
    ran: "phase_log (events (snd (spec_run_chain sh (spec_phases_of command) (started w)))) =
            phase_log (events w) @ ran" "prefix ran (spec_phases_of command)"
    by auto
  have "Build \<notin> set ran \<and> Install \<notin> set ran \<and> Test \<notin> set ran"
    if ne: "command \<noteq> ''clean''" and fails: "\<not> fst (check_requirements sh (world_at_check command w))"
  proof -
    from assms(2) ne consider "command = ''build''" | "command = ''install''"
      | "command = ''test''" | "command = ''all''" by auto
    then have "ran = [Clean] \<or> ran = [Clean, Check] \<or> ran = [Check]"
    proof cases
      case 1
      with fails have "\<not> fst (check_requirements sh (snd (clean_build (started w))))"
        by (simp add: world_at_check_def spec_phases_of_def)
      from spec_run_chain_clean_check_fails[OF this, of "[Build]"] ran(1) 1
      show ?thesis by (auto simp: spec_phases_of_def)
    next
      case 2
      with fails have "\<not> fst (check_requirements sh (started w))"
        by (simp add: world_at_check_def spec_phases_of_def)
      from spec_run_chain_check_fails[OF this, of "[Install]"] ran(1) 2
      show ?thesis by (auto simp: spec_phases_of_def)
    next
      case 3
      with fails have "\<not> fst (check_requirements sh (started w))"
        by (simp add: world_at_check_def spec_phases_of_def)
      from spec_run_chain_check_fails[OF this, of "[Test]"] ran(1) 3
      show ?thesis by (auto simp: spec_phases_of_def)
    next
      case 4
      with fails have "\<not> fst (check_requirements sh (snd (clean_build (started w))))"
        by (simp add: world_at_check_def spec_phases_of_def)
      from spec_run_chain_clean_check_fails[OF this, of "[Build, Install, Test]"] ran(1) 4
      show ?thesis by (auto simp: spec_phases_of_def)
    qed
    then show ?thesis by auto
  qed
  with ran eq show ?thesis by auto
qed

theorem dispatcher_runs_listed_phases_witness:
  "os_path_exists ''setup.py'' world_bare
   \<and> main shell_failing [''build.py'', ''all''] world_bare =
       spec_run_chain shell_failing (spec_phases_of ''all'') (started world_bare)
   \<and> \<not> fst (check_requirements shell_failing (world_at_check ''all'' world_bare))
   \<and> phase_log (events (snd (main shell_failing [''build.py'', ''all''] world_bare))) = [Clean, Check]"
proof -
  have a: "os_path_exists ''setup.py'' world_bare" by code_simp
  have b: "''all'' \<in> {''clean'', ''build'', ''install'', ''test'', ''all''}" by simp
  have c: "\<not> fst (check_requirements shell_failing (world_at_check ''all'' world_bare))"
    by code_simp
  have d: "phase_log (events (snd (main shell_failing [''build.py'', ''all''] world_bare))) = [Clean, Check]"
    by code_simp
  from dispatcher_runs_listed_phases[OF a b, of shell_failing "''build.py''" "[]"] a c d
  show ?thesis by blast
qed

subsection \<open>No argument\<close>



subsection \<open>Unknown commands\<close>

text \<open>
  C8. In the project root, for an argument that is none of the five commands, \<open>main\<close>
  prints its two header lines, the line \<^verbatim>\<open>Unknown command: \<close> with the argument, and
  the line that lists the five commands; it changes nothing else (no phase is entered, no
  command is run, the machine is as it was) and returns, so the exit status is 0.
\<close>

theorem unknown_command_prints_usage:
  assumes "os_path_exists ''setup.py'' w"
    and "command \<notin> {''clean'', ''build'', ''install'', ''test'', ''all''}"
  shows "main sh (prog # command # extra) w =
           (Inr (), w\<lparr>out := out w @ [''Building mcsrvstatus library'', replicate 50 (CHR ''=''),
                                      ''Unknown command: '' @ command,
                                      ''Available commands: clean, build, install, test, all'']\<rparr>)
         \<and> exit_status (fst (main sh (prog # command # extra) w)) = 0
         \<and> events (snd (main sh (prog # command # extra) w)) = events w
         \<and> mach (snd (main sh (prog # command # extra) w)) = mach w"
  unfolding main_unknown[OF assms]
  by (simp add: started_def print_def)

theorem unknown_command_prints_usage_witness:
  "os_path_exists ''setup.py'' world_bare
   \<and> ''frobnicate'' \<notin> {''clean'', ''build'', ''install'', ''test'', ''all''}
   \<and> out (snd (main shell_ok [''build.py'', ''frobnicate''] world_bare)) =
       [''Building mcsrvstatus library'', replicate 50 (CHR ''=''),
        ''Unknown command: frobnicate'', ''Available commands: clean, build, install, test, all'']
   \<and> exit_status (fst (main shell_ok [''build.py'', ''frobnicate''] world_bare)) = 0"
proof -
  have a: "os_path_exists ''setup.py'' world_bare" by code_simp
  have b: "''frobnicate'' \<notin> {''clean'', ''build'', ''install'', ''test'', ''all''}" by simp
  have c: "out world_bare = []" by code_simp
  from unknown_command_prints_usage[OF a b, of shell_ok "''build.py''" "[]"] a b
  show ?thesis by (simp add: c)
qed

subsection \<open>Further arguments\<close>

text \<open>
  C10. \<open>main\<close> reads \<^verbatim>\<open>sys.argv\<close> only through \<^verbatim>\<open>len(sys.argv) > 1\<close> and
  \<^verbatim>\<open>sys.argv[1]\<close>: two invocations with the same first argument give the same result
  and the same world (output, log, machine), whatever the further arguments and the
  program name are; so do two invocations without an argument.
\<close>

theorem main_reads_first_argument_only:
  "main sh (prog # command # extra) w = main sh (prog' # command # extra') w
   \<and> main sh [prog] w = main sh [prog'] w
   \<and> main sh [prog] w = main sh [] w"
  by (intro conjI main_cong) simp_all

section \<open>The walk on a well-formed tree\<close>

declare walk.simps [simp del]

declare announce.simps [simp del]

lemma walk_body_skip:
  "''__pycache__'' \<notin> set ds \<Longrightarrow> walk_body root ds (es, dirs, lines) = (Inr (), es, dirs, lines)"
  by (induction ds) auto

lemma walk_body_hit:
  "distinct ds \<Longrightarrow> ''__pycache__'' \<in> set ds \<Longrightarrow> map_of es ''__pycache__'' = Some (Dir x) \<Longrightarrow>
   walk_body root ds (es, dirs, lines) =
     (Inr (), filter (\<lambda>e. fst e \<noteq> ''__pycache__'') es, remove1 ''__pycache__'' dirs,
      lines @ [''Removing: '' @ join root ''__pycache__''])"
proof (induction ds)
  case Nil
  then show ?case by simp
next
  case (Cons d ds)
  show ?case
  proof (cases "d = ''__pycache__''")
    case True
    with Cons.prems have "''__pycache__'' \<notin> set ds" by simp
    with True Cons.prems show ?thesis
      by (simp add: rmtree_def walk_body_skip Let_def)
  next
    case False
    with Cons show ?thesis by simp
  qed
qed

lemma map_of_distinct_entry:
  "distinct (map fst es) \<Longrightarrow> (n, x) \<in> set es \<Longrightarrow> map_of es n = Some x"
  by simp

lemma dirs_distinct:
  "distinct (map fst es) \<Longrightarrow> distinct (map fst (filter P es))"
  by (simp add: distinct_map_filter)

lemma keep_when_listed:
  assumes "distinct (map fst es)" and "map_of es ''__pycache__'' = Some (Dir x)"
  shows "filter (\<lambda>e. fst e \<noteq> ''__pycache__'') es = filter (\<lambda>e. \<not> doomed_entry e) es"
proof (rule filter_cong[OF refl])
  fix e assume "e \<in> set es"
  show "(fst e \<noteq> ''__pycache__'') = (\<not> doomed_entry e)"
  proof (cases "fst e = ''__pycache__''")
    case True
    with \<open>e \<in> set es\<close> assms(1) have "map_of es ''__pycache__'' = Some (snd e)"
      by (metis map_of_distinct_entry prod.collapse)
    with assms(2) True show ?thesis by (simp add: doomed_entry_def is_dir_def)
  next
    case False
    then show ?thesis by (simp add: doomed_entry_def)
  qed
qed

lemma doomed_when_listed:
  assumes "distinct (map fst es)" and "map_of es ''__pycache__'' = Some (Dir x)"
  shows "filter doomed_entry es = [(''__pycache__'', Dir x)]"
  using assms
proof (induction es)
  case Nil
  then show ?case by simp
next
  case (Cons e es)
  show ?case
  proof (cases "fst e = ''__pycache__''")
    case True
    with Cons.prems have e: "e = (''__pycache__'', Dir x)" by (cases e) simp
    from True Cons.prems have "''__pycache__'' \<notin> fst ` set es" by simp
    then have "filter doomed_entry es = []"
      by (force simp: filter_empty_conv doomed_entry_def)
    moreover from e have "doomed_entry e" by (simp add: doomed_entry_def is_dir_def)
    ultimately show ?thesis using e by simp
  next
    case False
    then have "\<not> doomed_entry e" by (simp add: doomed_entry_def)
    with False Cons show ?thesis by simp
  qed
qed

lemma none_doomed_when_not_listed:
  assumes "''__pycache__'' \<notin> set (map fst (filter (\<lambda>e. is_dir (snd e)) es))"
  shows "filter doomed_entry es = []" and "filter (\<lambda>e. \<not> doomed_entry e) es = es"
  using assms by (force simp: filter_empty_conv filter_id_conv doomed_entry_def)+

lemma listed_is_dir:
  assumes "distinct (map fst es)"
    and "n \<in> set (map fst (filter (\<lambda>e. is_dir (snd e)) es))"
  shows "\<exists>x. map_of es n = Some (Dir x)"
proof -
  from assms(2) obtain nd where "(n, nd) \<in> set es" "is_dir nd" by auto
  with assms(1) show ?thesis
    by (cases nd) (auto simp: is_dir_def)
qed

text \<open>The loop body on a listing with distinct names: it deletes the directory named
  \<^verbatim>\<open>__pycache__\<close>, if there is one, prints one line for it, and keeps every other
  subdirectory in \<open>dirs\<close>.\<close>

lemma walk_body_wf:
  assumes "distinct (map fst es)"
  defines "dirs \<equiv> map fst (filter (\<lambda>e. is_dir (snd e)) es)"
  shows "\<exists>dirs1. walk_body root dirs (es, dirs, lines) =
           (Inr (), filter (\<lambda>e. \<not> doomed_entry e) es, dirs1,
            lines @ map (\<lambda>e. ''Removing: '' @ join root (fst e)) (filter doomed_entry es))
         \<and> (\<forall>n. n \<in> set dirs \<and> n \<noteq> ''__pycache__'' \<longrightarrow> n \<in> set dirs1)"
proof (cases "''__pycache__'' \<in> set dirs")
  case True
  from assms(1) have d: "distinct dirs" unfolding dirs_def by (rule dirs_distinct)
  from True listed_is_dir[OF assms(1)] obtain x where x: "map_of es ''__pycache__'' = Some (Dir x)"
    unfolding dirs_def by blast
  show ?thesis
    using walk_body_hit[OF d True x, of root dirs lines]
          keep_when_listed[OF assms(1) x] doomed_when_listed[OF assms(1) x]
    by simp
next
  case False
  then show ?thesis
    using walk_body_skip[OF False, of root es dirs lines] none_doomed_when_not_listed[of es]
    unfolding dirs_def by simp
qed

lemma prune_node_Dir: "prune_node (Dir es) = Dir (prune es)"
  by (simp add: prune_def)

text \<open>The descent, when every subdirectory is still listed and its own walk is known.\<close>

lemma walk_subs_all:
  assumes "\<And>n sub. (n, Dir sub) \<in> set es \<Longrightarrow>
             n \<in> set dirs \<and>
             (\<forall>root lines. walk root sub lines = (Inr (), prune sub, lines @ announce root (Dir sub)))"
  shows "walk_subs root dirs es lines =
           (Inr (), map (\<lambda>e. (fst e, prune_node (snd e))) es,
            lines @ concat (map (\<lambda>e. announce (join root (fst e)) (snd e)) es))"
  using assms
proof (induction es arbitrary: lines)
  case Nil
  then show ?case by simp
next
  case (Cons e es)
  obtain n nd where e: "e = (n, nd)" by (cases e)
  have IH: "walk_subs root dirs es lines' =
           (Inr (), map (\<lambda>e. (fst e, prune_node (snd e))) es,
            lines' @ concat (map (\<lambda>e. announce (join root (fst e)) (snd e)) es))" for lines'
  proof (rule Cons.IH)
    fix n sub assume "(n, Dir sub) \<in> set es"
    then have "(n, Dir sub) \<in> set (e # es)" by simp
    then show "n \<in> set dirs \<and>
             (\<forall>root lines. walk root sub lines = (Inr (), prune sub, lines @ announce root (Dir sub)))"
      by (rule Cons.prems)
  qed
  show ?case
  proof (cases nd)
    case File
    with e IH show ?thesis by (simp add: announce.simps(1))
  next
    case (Dir sub)
    with e Cons.prems[of n sub]
    have n: "n \<in> set dirs"
      and w: "walk (join root n) sub lines =
                (Inr (), prune sub, lines @ announce (join root n) (Dir sub))"
      by simp_all
    from e Dir n w IH show ?thesis
      by (simp add: prune_node_Dir del: prune_node.simps)
  qed
qed

text \<open>On a well-formed tree the walk raises nothing: it leaves the pruned tree and has
  announced every deletion.\<close>

lemma walk_wf_node:
  "wf nd \<Longrightarrow> nd = Dir es \<Longrightarrow>
     walk root es lines = (Inr (), prune es, lines @ announce root (Dir es))"
proof (induction nd arbitrary: es root lines)
  case File
  then show ?case by simp
next
  case (Dir es0)
  then have es0: "es0 = es" by simp
  from Dir.prems have dist: "distinct (map fst es)" and sub_wf: "\<And>e. e \<in> set es \<Longrightarrow> wf (snd e)"
    by auto
  define dirs where "dirs = map fst (filter (\<lambda>e. is_dir (snd e)) es)"
  define es1 where "es1 = filter (\<lambda>e. \<not> doomed_entry e) es"
  define lines1 where
    "lines1 = lines @ map (\<lambda>e. ''Removing: '' @ join root (fst e)) (filter doomed_entry es)"
  from walk_body_wf[OF dist, of root lines] obtain dirs1 where
    body: "walk_body root dirs (es, dirs, lines) = (Inr (), es1, dirs1, lines1)"
    and kept: "\<And>n. n \<in> set dirs \<Longrightarrow> n \<noteq> ''__pycache__'' \<Longrightarrow> n \<in> set dirs1"
    unfolding dirs_def es1_def lines1_def by blast
  have subs: "walk_subs root dirs1 es1 lines1 =
           (Inr (), map (\<lambda>e. (fst e, prune_node (snd e))) es1,
            lines1 @ concat (map (\<lambda>e. announce (join root (fst e)) (snd e)) es1))"
  proof (rule walk_subs_all, intro conjI allI)
    fix n sub assume mem: "(n, Dir sub) \<in> set es1"
    then have in_es: "(n, Dir sub) \<in> set es" and nd: "\<not> doomed_entry (n, Dir sub)"
      unfolding es1_def by simp_all
    from nd have "n \<noteq> ''__pycache__''" by (simp add: doomed_entry_def is_dir_def)
    moreover from in_es have "n \<in> set dirs" unfolding dirs_def by (force simp: is_dir_def)
    ultimately show "n \<in> set dirs1" by (simp add: kept)
    fix root' lines'
    from in_es have "snd (n, Dir sub) \<in> Basic_BNFs.snds (n, Dir sub)" by simp
    from in_es sub_wf[of "(n, Dir sub)"] have "wf (Dir sub)" by simp
    with in_es show "walk root' sub lines' = (Inr (), prune sub, lines' @ announce root' (Dir sub))"
      using Dir.IH[of "(n, Dir sub)" "Dir sub" sub root' lines'] es0 by simp
  qed
  show ?case
    unfolding walk.simps[of root es lines] dirs_def[symmetric] Let_def body
    using subs by (simp add: prune_def es1_def lines1_def announce.simps(2))
qed

lemma walk_wf:
  "wf (Dir es) \<Longrightarrow> walk root es lines = (Inr (), prune es, lines @ announce root (Dir es))"
  by (rule walk_wf_node[OF _ refl])

section \<open>The first loop of clean\_build\<close>

lemma map_of_filter_names:
  "map_of (filter (\<lambda>e. P (fst e)) es) k = (if P k then map_of es k else None)"
  by (induction es) auto

lemma map_of_filter_notin:
  "map_of (filter (\<lambda>e. fst e \<notin> S) es) k = (if k \<notin> S then map_of es k else None)"
  by (rule map_of_filter_names[where P="\<lambda>k. k \<notin> S"])

lemma map_of_filter_neq:
  "map_of (filter (\<lambda>e. fst e \<noteq> d) es) k = (if k \<noteq> d then map_of es k else None)"
  by (rule map_of_filter_names[where P="\<lambda>k. k \<noteq> d"])

lemma exists_print [simp]: "os_path_exists n (print s w) = os_path_exists n w"
  by (simp add: os_path_exists_def)

lemma exists_log_event [simp]: "os_path_exists n (log_event e w) = os_path_exists n w"
  by (simp add: os_path_exists_def)

lemma clean_dirs_modules [simp]: "modules (mach (snd (clean_dirs ds w))) = modules (mach w)"
  by (induction ds arbitrary: w) (auto simp: Let_def split: sum.splits)

text \<open>What the first loop leaves is the listing without some of the names it was given.\<close>

lemma clean_dirs_fs:
  "\<exists>gone. set gone \<subseteq> set ds \<and>
     fs (mach (snd (clean_dirs ds w))) = filter (\<lambda>e. fst e \<notin> set gone) (fs (mach w))"
proof (induction ds arbitrary: w)
  case Nil
  have "set [] \<subseteq> set ([]::string list) \<and> fs (mach (snd (clean_dirs [] w))) = filter (\<lambda>e. fst e \<notin> set []) (fs (mach w))"
    by simp
  then show ?case by blast
next
  case (Cons d ds)
  show ?case
  proof (cases "map_of (fs (mach w)) d")
    case None
    with Cons.IH[of w] show ?thesis
      by (auto simp: os_path_exists_def)
  next
    case (Some nd)
    show ?thesis
    proof (cases nd)
      case File
      have "set [] \<subseteq> set (d # ds) \<and>
            fs (mach (snd (clean_dirs (d # ds) w))) = filter (\<lambda>e. fst e \<notin> set []) (fs (mach w))"
        using Some File by (simp add: os_path_exists_def rmtree_def Let_def)
      then show ?thesis by blast
    next
      case (Dir sub)
      define w1 where "w1 = (print (''Removing directory: '' @ d) w)
                         \<lparr>mach := (mach w)\<lparr>fs := filter (\<lambda>e. fst e \<noteq> d) (fs (mach w))\<rparr>\<rparr>"
      from Cons.IH[of w1] obtain gone where
        g: "set gone \<subseteq> set ds"
           "fs (mach (snd (clean_dirs ds w1))) = filter (\<lambda>e. fst e \<notin> set gone) (fs (mach w1))"
        by blast
      have "clean_dirs (d # ds) w = clean_dirs ds w1"
        using Some Dir by (simp add: os_path_exists_def rmtree_def Let_def w1_def)
      with g have "set (d # gone) \<subseteq> set (d # ds) \<and>
            fs (mach (snd (clean_dirs (d # ds) w))) = filter (\<lambda>e. fst e \<notin> set (d # gone)) (fs (mach w))"
        by (auto simp: w1_def intro: filter_cong)
      then show ?thesis by blast
    qed
  qed
qed

lemma clean_dirs_absent_stays:
  assumes "map_of (fs (mach w)) n = None"
  shows "map_of (fs (mach (snd (clean_dirs ds w)))) n = None"
proof -
  from clean_dirs_fs[of ds w] obtain gone where
    "fs (mach (snd (clean_dirs ds w))) = filter (\<lambda>e. fst e \<notin> set gone) (fs (mach w))" by blast
  with assms show ?thesis by (simp add: map_of_filter_notin)
qed

text \<open>The first loop when none of the names is a regular file.\<close>

lemma clean_dirs_ok:
  assumes "\<And>d. d \<in> set ds \<Longrightarrow> map_of (fs (mach w)) d \<noteq> Some File"
  shows "fst (clean_dirs ds w) = Inr () \<and>
         fs (mach (snd (clean_dirs ds w))) = filter (\<lambda>e. fst e \<notin> set ds) (fs (mach w))"
  using assms
proof (induction ds arbitrary: w)
  case Nil
  then show ?case by simp
next
  case (Cons d ds)
  show ?case
  proof (cases "map_of (fs (mach w)) d")
    case None
    have "fst (clean_dirs ds w) = Inr () \<and>
          fs (mach (snd (clean_dirs ds w))) = filter (\<lambda>e. fst e \<notin> set ds) (fs (mach w))"
      by (rule Cons.IH) (simp add: Cons.prems)
    moreover from None have "filter (\<lambda>e. fst e \<notin> set (d # ds)) (fs (mach w)) =
                   filter (\<lambda>e. fst e \<notin> set ds) (fs (mach w))"
      by (intro filter_cong refl) (auto simp: map_of_eq_None_iff)
    ultimately show ?thesis using None by (simp add: os_path_exists_def)
  next
    case (Some nd)
    with Cons.prems[of d] obtain sub where nd: "nd = Dir sub" by (cases nd) auto
    define w1 where "w1 = (print (''Removing directory: '' @ d) w)
                       \<lparr>mach := (mach w)\<lparr>fs := filter (\<lambda>e. fst e \<noteq> d) (fs (mach w))\<rparr>\<rparr>"
    have step: "clean_dirs (d # ds) w = clean_dirs ds w1"
      using Some nd by (simp add: os_path_exists_def rmtree_def Let_def w1_def)
    have "fst (clean_dirs ds w1) = Inr () \<and>
          fs (mach (snd (clean_dirs ds w1))) = filter (\<lambda>e. fst e \<notin> set ds) (fs (mach w1))"
    proof (rule Cons.IH)
      fix d' assume "d' \<in> set ds"
      then have "map_of (fs (mach w)) d' \<noteq> Some File" by (simp add: Cons.prems)
      then show "map_of (fs (mach w1)) d' \<noteq> Some File"
        by (simp add: w1_def map_of_filter_neq)
    qed
    then show ?thesis unfolding step by (auto simp: w1_def intro: filter_cong)
  qed
qed

section \<open>Paths in the pruned tree\<close>

lemma is_dir_prune_node [simp]: "is_dir (prune_node nd) = is_dir nd"
  by (cases nd) (simp_all add: is_dir_def)

lemma map_of_map_snd:
  "map_of (map (\<lambda>e. (fst e, f (snd e))) es) k = map_option f (map_of es k)"
  by (induction es) auto

lemma map_of_filter_distinct_entry:
  "distinct (map fst es) \<Longrightarrow>
   map_of (filter P es) k =
     (case map_of es k of None \<Rightarrow> None | Some x \<Rightarrow> if P (k, x) then Some x else None)"
proof (induction es)
  case Nil
  then show ?case by simp
next
  case (Cons e es)
  obtain n x where e: "e = (n, x)" by (cases e)
  from Cons.prems e have notin: "n \<notin> fst ` set es" by simp
  then have none: "map_of es n = None" by (simp add: map_of_eq_None_iff)
  have none': "map_of (filter P es) n = None"
    using notin by (auto simp: map_of_eq_None_iff)
  from Cons show ?case
    by (auto simp: e none none')
qed

lemma map_of_prune:
  "distinct (map fst es) \<Longrightarrow>
   map_of (prune es) n =
     (case map_of es n of
        None \<Rightarrow> None
      | Some x \<Rightarrow> if n = ''__pycache__'' \<and> is_dir x then None else Some (prune_node x))"
  by (simp add: prune_def map_of_map_snd map_of_filter_distinct_entry doomed_entry_def
           split: option.splits)

lemma wf_entry: "wf (Dir es) \<Longrightarrow> map_of es n = Some x \<Longrightarrow> wf x"
  by (auto dest: map_of_SomeD)

lemma lookup_prune_node:
  "wf nd \<Longrightarrow>
   lookup (prune_node nd) p =
     (if under_pycache nd p then None else map_option prune_node (lookup nd p))"
proof (induction p arbitrary: nd)
  case Nil
  then show ?case by simp
next
  case (Cons n p)
  show ?case
  proof (cases nd)
    case File
    then show ?thesis by simp
  next
    case (Dir es)
    with Cons.prems have d: "distinct (map fst es)" by simp
    show ?thesis
    proof (cases "map_of es n")
      case None
      with Dir d show ?thesis by (simp add: prune_node_Dir map_of_prune del: prune_node.simps)
    next
      case (Some x)
      with Cons.prems Dir have "wf x" by (auto dest: wf_entry)
      from Cons.IH[OF this] Some Dir d show ?thesis
        by (simp add: prune_node_Dir map_of_prune del: prune_node.simps)
    qed
  qed
qed

lemma dir_at_Nil [simp]: "dir_at nd [] = is_dir nd"
  by (simp add: dir_at_def)

lemma dir_at_File [simp]: "dir_at File (n # p) = False"
  by (simp add: dir_at_def)

lemma dir_at_Dir [simp]:
  "dir_at (Dir es) (n # p) = (case map_of es n of None \<Rightarrow> False | Some x \<Rightarrow> dir_at x p)"
  by (simp add: dir_at_def split: option.splits)

lemma pycache_prefix_iff:
  "(\<exists>q \<in> set (prefixes p). q \<noteq> [] \<and> last q = ''__pycache__'' \<and> dir_at nd q) = under_pycache nd p"
proof (induction p arbitrary: nd)
  case Nil
  then show ?case by simp
next
  case (Cons n p)
  have split: "(\<exists>q \<in> set (prefixes (n # p)). q \<noteq> [] \<and> last q = ''__pycache__'' \<and> dir_at nd q) =
        (\<exists>q' \<in> set (prefixes p). last (n # q') = ''__pycache__'' \<and> dir_at nd (n # q'))"
    by auto
  show ?case
  proof (cases nd)
    case File
    then show ?thesis unfolding split by simp
  next
    case (Dir es)
    show ?thesis
    proof (cases "map_of es n")
      case None
      with Dir show ?thesis unfolding split by simp
    next
      case (Some x)
      have "(\<exists>q' \<in> set (prefixes p). last (n # q') = ''__pycache__'' \<and> dir_at x q') =
            ((n = ''__pycache__'' \<and> is_dir x) \<or>
             (\<exists>q' \<in> set (prefixes p). q' \<noteq> [] \<and> last q' = ''__pycache__'' \<and> dir_at x q'))"
        (is "?L = (?A \<or> ?B)")
      proof
        assume ?L
        then obtain q' where q: "q' \<in> set (prefixes p)" "last (n # q') = ''__pycache__''" "dir_at x q'"
          by blast
        show "?A \<or> ?B"
        proof (cases "q' = []")
          case True
          with q show ?thesis by simp
        next
          case False
          with q show ?thesis by auto
        qed
      next
        assume "?A \<or> ?B"
        then show ?L
        proof
          assume ?A
          then have "[] \<in> set (prefixes p) \<and> last (n # []) = ''__pycache__'' \<and> dir_at x []"
            by simp
          then show ?L by blast
        next
          assume ?B
          then show ?L by auto
        qed
      qed
      with Cons.IH[of x] Some Dir show ?thesis unfolding split by simp
    qed
  qed
qed

lemma top_prefix_iff:
  "(\<exists>q \<in> set (prefixes p). dir_at (Dir es) q \<and>
       q \<in> {[''build''], [''dist''], [''mcsrvstatus.egg-info'']}) = top_removed es p"
proof (cases p)
  case Nil
  then show ?thesis by (simp add: top_removed_def)
next
  case (Cons n p')
  have "(\<exists>q \<in> set (prefixes (n # p')). dir_at (Dir es) q \<and>
           q \<in> {[''build''], [''dist''], [''mcsrvstatus.egg-info'']}) =
        (dir_at (Dir es) [n] \<and> n \<in> build_dirs)"
    by (auto simp: prefix_Cons build_dirs_def)
  with Cons show ?thesis
    by (auto simp: top_removed_def split: option.splits)
qed

lemma removed_by_clean_iff:
  "removed_by_clean es p = (top_removed es p \<or> under_pycache (Dir es) p)"
proof -
  have "removed_by_clean es p =
      ((\<exists>q \<in> set (prefixes p). dir_at (Dir es) q \<and>
           q \<in> {[''build''], [''dist''], [''mcsrvstatus.egg-info'']}) \<or>
       (\<exists>q \<in> set (prefixes p). q \<noteq> [] \<and> last q = ''__pycache__'' \<and> dir_at (Dir es) q))"
    unfolding removed_by_clean_def by blast
  then show ?thesis
    by (simp only: top_prefix_iff pycache_prefix_iff)
qed

section \<open>What clean\_build removes\<close>

lemma set_dirs_to_clean: "set [''build'', ''dist'', ''mcsrvstatus.egg-info''] = build_dirs"
  by (auto simp: build_dirs_def)

lemma wf_filter: "wf (Dir es) \<Longrightarrow> wf (Dir (filter P es))"
  by (simp add: distinct_map_filter)

lemma clean_build_ok:
  assumes "wf (Dir (fs (mach w)))"
    and "\<And>d. d \<in> build_dirs \<Longrightarrow>
              map_of (fs (mach w)) d \<noteq> Some File"
  shows "fst (clean_build w) = Inr ()"
    and "fs (mach (snd (clean_build w))) =
           prune (filter (\<lambda>e. fst e \<notin> build_dirs) (fs (mach w)))"
proof -
  let ?ds = "[''build'', ''dist'', ''mcsrvstatus.egg-info'']"
  let ?w0 = "log_event (Phase Clean) w"
  obtain r w1 where cd: "clean_dirs ?ds ?w0 = (r, w1)" by (cases "clean_dirs ?ds ?w0")
  have "fst (clean_dirs ?ds ?w0) = Inr () \<and>
        fs (mach (snd (clean_dirs ?ds ?w0))) = filter (\<lambda>e. fst e \<notin> set ?ds) (fs (mach ?w0))"
    by (rule clean_dirs_ok) (use assms(2) in \<open>simp add: set_dirs_to_clean del: set_simps\<close>)
  with cd have r: "r = Inr ()"
    and f: "fs (mach w1) = filter (\<lambda>e. fst e \<notin> build_dirs) (fs (mach w))"
    by (simp_all add: set_dirs_to_clean del: set_simps)
  from assms(1) have "wf (Dir (fs (mach w1)))" unfolding f by (rule wf_filter)
  then have wk: "walk ''.'' (fs (mach w1)) (out w1) =
                  (Inr (), prune (fs (mach w1)), out w1 @ announce ''.'' (Dir (fs (mach w1))))"
    by (rule walk_wf)
  show "fst (clean_build w) = Inr ()"
    unfolding clean_build_def Let_def cd r by (simp add: wk)
  show "fs (mach (snd (clean_build w))) =
           prune (filter (\<lambda>e. fst e \<notin> build_dirs) (fs (mach w)))"
    unfolding clean_build_def Let_def cd r by (simp add: wk) (simp add: f)
qed

lemma clean_build_modules [simp]: "modules (mach (snd (clean_build w))) = modules (mach w)"
proof -
  let ?ds = "[''build'', ''dist'', ''mcsrvstatus.egg-info'']"
  let ?w0 = "log_event (Phase Clean) w"
  obtain r w1 where cd: "clean_dirs ?ds ?w0 = (r, w1)" by (cases "clean_dirs ?ds ?w0")
  from clean_dirs_modules[of ?ds ?w0] have m: "modules (mach w1) = modules (mach w)"
    unfolding cd by simp
  show ?thesis
    unfolding clean_build_def Let_def cd
    by (cases r) (simp_all add: m split: prod.splits)
qed

lemma lookup_filtered:
  "lookup (Dir (filter (\<lambda>e. fst e \<notin> S) es)) (n # p) =
     (if n \<in> S then None else lookup (Dir es) (n # p))"
  by (simp add: map_of_filter_notin)

lemma under_pycache_filtered:
  "under_pycache (Dir (filter (\<lambda>e. fst e \<notin> S) es)) (n # p) =
     (n \<notin> S \<and> under_pycache (Dir es) (n # p))"
  by (simp add: map_of_filter_notin)

lemma kind_after_clean:
  assumes "wf (Dir es)"
    and "\<And>d. d \<in> build_dirs \<Longrightarrow> map_of es d \<noteq> Some File"
  shows "kind_at (prune (filter (\<lambda>e. fst e \<notin> build_dirs) es)) p =
           (if removed_by_clean es p then None else kind_at es p)"
proof (cases p)
  case Nil
  then show ?thesis
    by (simp add: kind_at_def removed_by_clean_iff top_removed_def is_dir_def)
next
  case (Cons n p')
  let ?T = "build_dirs"
  let ?F = "filter (\<lambda>e. fst e \<notin> ?T) es"
  from assms(1) have "wf (Dir ?F)" by (rule wf_filter)
  from lookup_prune_node[OF this, of p]
  have k: "kind_at (prune ?F) p =
             (if under_pycache (Dir ?F) p then None else map_option is_dir (lookup (Dir ?F) p))"
    by (simp add: kind_at_def prune_node_Dir option.map_comp comp_def del: prune_node.simps)
  show ?thesis
  proof (cases "n \<in> ?T")
    case True
    from assms(2)[OF True] have "map_of es n = None \<or> (\<exists>sub. map_of es n = Some (Dir sub))"
      by (cases "map_of es n") (auto intro: node.exhaust)
    then show ?thesis
    proof
      assume none: "map_of es n = None"
      with True Cons show ?thesis
        unfolding k by (simp add: kind_at_def map_of_filter_notin)
    next
      assume "\<exists>sub. map_of es n = Some (Dir sub)"
      then obtain sub where "map_of es n = Some (Dir sub)" ..
      with True have "top_removed es (n # p')" by (simp add: top_removed_def is_dir_def)
      with True Cons show ?thesis
        unfolding k by (simp add: removed_by_clean_iff map_of_filter_notin)
    qed
  next
    case False
    then have "\<not> top_removed es (n # p')" by (simp add: top_removed_def)
    with False Cons show ?thesis
      unfolding k
      by (simp add: removed_by_clean_iff kind_at_def lookup_filtered under_pycache_filtered
               del: lookup.simps under_pycache.simps)
  qed
qed

text \<open>
  C5. Take a well-formed working directory in which each of \<^verbatim>\<open>build\<close>, \<^verbatim>\<open>dist\<close> and
  \<^verbatim>\<open>mcsrvstatus.egg-info\<close> is a directory (or is missing; not a regular file). Then
  \<open>clean_build\<close> raises nothing, and afterwards a path exists exactly when it existed
  before and is not in the removed set, that is, neither it nor a directory above it is one
  of the three build directories of the working directory or a directory named
  \<^verbatim>\<open>__pycache__\<close>; every path that is left is of the kind it was (file or directory).
  The installed modules are untouched.
\<close>

theorem clean_build_removes_exactly:
  assumes "wf (Dir (fs (mach w)))"
    and "\<forall>d \<in> {''build'', ''dist'', ''mcsrvstatus.egg-info''}. map_of (fs (mach w)) d \<noteq> Some File"
  shows "fst (clean_build w) = Inr ()
       \<and> (\<forall>p. kind_at (fs (mach (snd (clean_build w)))) p =
                (if removed_by_clean (fs (mach w)) p then None else kind_at (fs (mach w)) p))
       \<and> modules (mach (snd (clean_build w))) = modules (mach w)"
proof -
  from assms(2) have nf: "\<And>d. d \<in> build_dirs \<Longrightarrow>
              map_of (fs (mach w)) d \<noteq> Some File"
    by (auto simp: build_dirs_def)
  show ?thesis
    using clean_build_ok[OF assms(1) nf] kind_after_clean[OF assms(1) nf]
    by simp
qed

theorem clean_build_removes_exactly_witness:
  "wf (Dir (fs (mach world_project)))
   \<and> map_of (fs (mach world_project)) ''build'' \<noteq> Some File
   \<and> map_of (fs (mach world_project)) ''dist'' \<noteq> Some File
   \<and> map_of (fs (mach world_project)) ''mcsrvstatus.egg-info'' \<noteq> Some File
   \<and> fst (clean_build world_project) = Inr ()
   \<and> fs (mach (snd (clean_build world_project))) =
       [(''setup.py'', File),
        (''mcsrvstatus'', Dir [(''api.py'', File), (''sub'', Dir [])]),
        (''tests'', Dir [(''build'', Dir [])])]
   \<and> removed_by_clean (fs (mach world_project)) [''mcsrvstatus'', ''sub'', ''__pycache__'']
   \<and> kind_at (fs (mach (snd (clean_build world_project)))) [''mcsrvstatus'', ''sub'', ''__pycache__''] = None
   \<and> \<not> removed_by_clean (fs (mach world_project)) [''tests'', ''build'']
   \<and> kind_at (fs (mach (snd (clean_build world_project)))) [''tests'', ''build''] = Some True"
proof -
  have a: "wf (Dir (fs (mach world_project)))" by code_simp
  have b: "\<forall>d \<in> {''build'', ''dist'', ''mcsrvstatus.egg-info''}.
             map_of (fs (mach world_project)) d \<noteq> Some File"
    by code_simp
  have c: "fs (mach (snd (clean_build world_project))) =
       [(''setup.py'', File),
        (''mcsrvstatus'', Dir [(''api.py'', File), (''sub'', Dir [])]),
        (''tests'', Dir [(''build'', Dir [])])]"
    by code_simp
  have d: "removed_by_clean (fs (mach world_project)) [''mcsrvstatus'', ''sub'', ''__pycache__'']"
    by code_simp
  have e: "\<not> removed_by_clean (fs (mach world_project)) [''tests'', ''build'']"
    by code_simp
  have f: "kind_at (fs (mach world_project)) [''tests'', ''build''] = Some True"
    by code_simp
  from clean_build_removes_exactly[OF a b] a b c d e f show ?thesis by simp
qed

section \<open>Running clean\_build twice\<close>

lemma doomed_entry_pruned [simp]:
  "doomed_entry (fst e, prune_node (snd e)) = doomed_entry e"
  by (simp add: doomed_entry_def)

lemma filter_keep_map_prune:
  "filter (\<lambda>e. \<not> doomed_entry e) (map (\<lambda>e. (fst e, prune_node (snd e))) es) =
   map (\<lambda>e. (fst e, prune_node (snd e))) (filter (\<lambda>e. \<not> doomed_entry e) es)"
  by (induction es) simp_all

lemma filter_doomed_map_prune:
  "filter doomed_entry (map (\<lambda>e. (fst e, prune_node (snd e))) es) =
   map (\<lambda>e. (fst e, prune_node (snd e))) (filter doomed_entry es)"
  by (induction es) simp_all

lemma snd_in_snds: "snd e \<in> Basic_BNFs.snds e"
  by (cases e) simp

lemma prune_node_idem: "prune_node (prune_node nd) = prune_node nd"
proof (induction nd)
  case File
  then show ?case by simp
next
  case (Dir es)
  have "prune_node (prune_node b) = prune_node b" if "(a, b) \<in> set es" for a b
    using that Dir.IH[of "(a, b)" b] by simp
  then show ?case
    by (auto simp: filter_keep_map_prune)
qed

lemma prune_idem: "prune (prune es) = prune es"
  using prune_node_idem[of "Dir es"] by (simp add: prune_node_Dir del: prune_node.simps)

lemma announce_pruned: "announce root (prune_node nd) = []"
proof (induction nd arbitrary: root)
  case File
  then show ?case by (simp add: announce.simps)
next
  case (Dir es)
  have "announce (join root (fst e)) (prune_node (snd e)) = []" if "e \<in> set es" for e
    using that Dir.IH[of e "snd e"] snd_in_snds[of e] by simp
  then show ?case
    by (simp add: announce.simps filter_keep_map_prune filter_doomed_map_prune comp_def)
qed

lemma wf_prune_node: "wf nd \<Longrightarrow> wf (prune_node nd)"
proof (induction nd)
  case File
  then show ?case by simp
next
  case (Dir es)
  from Dir.prems have d: "distinct (map fst es)" and s: "\<And>e. e \<in> set es \<Longrightarrow> wf (snd e)"
    by auto
  have "wf (prune_node (snd e))" if "e \<in> set es" for e
    using that Dir.IH[of e "snd e"] s[of e] snd_in_snds[of e] by simp
  with d show ?case
    by (auto simp: comp_def distinct_map_filter)
qed

lemma wf_prune: "wf (Dir es) \<Longrightarrow> wf (Dir (prune es))"
  using wf_prune_node[of "Dir es"] by (simp add: prune_node_Dir del: prune_node.simps wf.simps)

lemma clean_dirs_success_absent:
  "clean_dirs ds w = (Inr (), w1) \<Longrightarrow> d \<in> set ds \<Longrightarrow> map_of (fs (mach w1)) d = None"
proof (induction ds arbitrary: w)
  case Nil
  then show ?case by simp
next
  case (Cons a ds)
  show ?case
  proof (cases "map_of (fs (mach w)) a")
    case None
    with Cons.prems(1) have run: "clean_dirs ds w = (Inr (), w1)"
      by (simp add: os_path_exists_def)
    show ?thesis
    proof (cases "d = a")
      case True
      from clean_dirs_absent_stays[OF None, of ds] run True show ?thesis by simp
    next
      case False
      with Cons.prems(2) have "d \<in> set ds" by simp
      with run show ?thesis by (rule Cons.IH)
    qed
  next
    case (Some nd)
    with Cons.prems(1) obtain sub where nd: "nd = Dir sub"
      by (cases nd) (auto simp: os_path_exists_def rmtree_def Let_def)
    define w' where "w' = (print (''Removing directory: '' @ a) w)
                       \<lparr>mach := (mach w)\<lparr>fs := filter (\<lambda>e. fst e \<noteq> a) (fs (mach w))\<rparr>\<rparr>"
    from Cons.prems(1) Some nd have run: "clean_dirs ds w' = (Inr (), w1)"
      by (simp add: os_path_exists_def rmtree_def Let_def w'_def)
    show ?thesis
    proof (cases "d = a")
      case True
      have "map_of (fs (mach w')) a = None" by (simp add: w'_def map_of_filter_neq)
      from clean_dirs_absent_stays[OF this, of ds] run True show ?thesis by simp
    next
      case False
      with Cons.prems(2) have "d \<in> set ds" by simp
      with run show ?thesis by (rule Cons.IH)
    qed
  qed
qed

lemma clean_dirs_absent_noop:
  "(\<And>d. d \<in> set ds \<Longrightarrow> map_of (fs (mach w)) d = None) \<Longrightarrow> clean_dirs ds w = (Inr (), w)"
  by (induction ds) (simp_all add: os_path_exists_def)

text \<open>A second run of the first loop, on a world with the listing the first run left.\<close>

lemma clean_dirs_again:
  assumes "clean_dirs ds w = (r, w1)" and "fs (mach w2) = fs (mach w1)"
  shows "fst (clean_dirs ds w2) = r \<and> fs (mach (snd (clean_dirs ds w2))) = fs (mach w1)"
  using assms
proof (induction ds arbitrary: w)
  case Nil
  then show ?case by auto
next
  case (Cons a ds)
  show ?case
  proof (cases "map_of (fs (mach w)) a")
    case None
    with Cons.prems(1) have run: "clean_dirs ds w = (r, w1)"
      by (simp add: os_path_exists_def)
    from clean_dirs_absent_stays[OF None, of ds] run Cons.prems(2)
    have "map_of (fs (mach w2)) a = None" by simp
    then have "clean_dirs (a # ds) w2 = clean_dirs ds w2" by (simp add: os_path_exists_def)
    with Cons.IH[OF run Cons.prems(2)] show ?thesis by simp
  next
    case (Some nd)
    show ?thesis
    proof (cases nd)
      case File
      with Some Cons.prems(1) have r: "r = Inl NotADirectoryError"
        and w1: "w1 = print (''Removing directory: '' @ a) w"
        by (auto simp: os_path_exists_def rmtree_def Let_def)
      from w1 Cons.prems(2) Some File have "map_of (fs (mach w2)) a = Some File" by simp
      then have "clean_dirs (a # ds) w2 = (Inl NotADirectoryError, print (''Removing directory: '' @ a) w2)"
        by (simp add: os_path_exists_def rmtree_def Let_def)
      with r Cons.prems(2) show ?thesis by simp
    next
      case (Dir sub)
      define w' where "w' = (print (''Removing directory: '' @ a) w)
                         \<lparr>mach := (mach w)\<lparr>fs := filter (\<lambda>e. fst e \<noteq> a) (fs (mach w))\<rparr>\<rparr>"
      from Cons.prems(1) Some Dir have run: "clean_dirs ds w' = (r, w1)"
        by (simp add: os_path_exists_def rmtree_def Let_def w'_def)
      have "map_of (fs (mach w')) a = None" by (simp add: w'_def map_of_filter_neq)
      from clean_dirs_absent_stays[OF this, of ds] run Cons.prems(2)
      have "map_of (fs (mach w2)) a = None" by simp
      then have "clean_dirs (a # ds) w2 = clean_dirs ds w2" by (simp add: os_path_exists_def)
      with Cons.IH[OF run Cons.prems(2)] show ?thesis by simp
    qed
  qed
qed

lemma machine_eqI: "fs m = fs m' \<Longrightarrow> modules m = modules m' \<Longrightarrow> (m::machine) = m'"
  by simp

lemma announce_Dir_prune: "announce root (Dir (prune es)) = []"
  using announce_pruned[of root "Dir es"] by (simp add: prune_node_Dir del: prune_node.simps)

text \<open>\<open>clean_build\<close> when its first loop raises, and when it does not.\<close>

lemma clean_build_raised:
  assumes "clean_dirs [''build'', ''dist'', ''mcsrvstatus.egg-info''] (log_event (Phase Clean) w) = (Inl e, wa)"
  shows "clean_build w = (Inl e, wa)"
  unfolding clean_build_def Let_def assms by simp

lemma clean_build_walked:
  assumes "clean_dirs [''build'', ''dist'', ''mcsrvstatus.egg-info''] (log_event (Phase Clean) w) = (Inr (), wa)"
    and "wf (Dir (fs (mach wa)))"
  shows "clean_build w =
           (Inr (), wa\<lparr>mach := (mach wa)\<lparr>fs := prune (fs (mach wa))\<rparr>,
                        out := out wa @ announce ''.'' (Dir (fs (mach wa)))\<rparr>)"
  unfolding clean_build_def Let_def assms(1) by (simp add: walk_wf[OF assms(2)])

text \<open>
  C6. On a well-formed working directory, a second \<open>clean_build\<close> right after a first
  one leaves the machine as the first one left it: it deletes nothing. It ends as the
  first one did, and when the first one returned it prints nothing either. A name that
  does not exist is skipped by the first loop: no deletion, no error.
\<close>

theorem clean_build_idempotent:
  assumes "wf (Dir (fs (mach w)))"
  shows "let r1 = clean_build w; r2 = clean_build (snd r1)
         in mach (snd r2) = mach (snd r1)
            \<and> fst r2 = fst r1
            \<and> (fst r1 = Inr () \<longrightarrow> out (snd r2) = out (snd r1))
            \<and> (\<forall>d. \<not> os_path_exists d w \<longrightarrow> clean_dirs [d] w = (Inr (), w))"
proof -
  let ?ds = "[''build'', ''dist'', ''mcsrvstatus.egg-info'']"
  obtain r wa where cd: "clean_dirs ?ds (log_event (Phase Clean) w) = (r, wa)"
    by (cases "clean_dirs ?ds (log_event (Phase Clean) w)")
  have absent: "\<forall>d. \<not> os_path_exists d w \<longrightarrow> clean_dirs [d] w = (Inr (), w)"
    by simp
  have "mach (snd (clean_build (snd (clean_build w)))) = mach (snd (clean_build w))
        \<and> fst (clean_build (snd (clean_build w))) = fst (clean_build w)
        \<and> (fst (clean_build w) = Inr () \<longrightarrow>
             out (snd (clean_build (snd (clean_build w)))) = out (snd (clean_build w)))"
  proof (cases r)
    case (Inl e)
    with cd have first: "clean_build w = (Inl e, wa)" by (simp add: clean_build_raised)
    have same: "fs (mach (log_event (Phase Clean) wa)) = fs (mach wa)" by simp
    obtain r2 wb where cd2: "clean_dirs ?ds (log_event (Phase Clean) wa) = (r2, wb)"
      by (cases "clean_dirs ?ds (log_event (Phase Clean) wa)")
    from clean_dirs_again[OF cd same] cd2 Inl have r2: "r2 = Inl e" and f: "fs (mach wb) = fs (mach wa)"
      by simp_all
    from clean_dirs_modules[of ?ds "log_event (Phase Clean) wa"] cd2
    have m: "modules (mach wb) = modules (mach wa)" by simp
    from cd2 r2 have second: "clean_build wa = (Inl e, wb)" by (simp add: clean_build_raised)
    from f m have "mach wb = mach wa" by (rule machine_eqI)
    with first second show ?thesis by simp
  next
    case (Inr u)
    with cd have cd': "clean_dirs ?ds (log_event (Phase Clean) w) = (Inr (), wa)" by simp
    from clean_dirs_fs[of ?ds "log_event (Phase Clean) w"] cd' obtain gone where
      "fs (mach wa) = filter (\<lambda>e. fst e \<notin> set gone) (fs (mach w))" by auto
    with assms have wfa: "wf (Dir (fs (mach wa)))" by (simp only: wf_filter)
    define w1 where "w1 = wa\<lparr>mach := (mach wa)\<lparr>fs := prune (fs (mach wa))\<rparr>,
                              out := out wa @ announce ''.'' (Dir (fs (mach wa)))\<rparr>"
    from clean_build_walked[OF cd' wfa] have first: "clean_build w = (Inr (), w1)"
      by (simp add: w1_def)
    have gone: "map_of (fs (mach (log_event (Phase Clean) w1))) d = None" if "d \<in> set ?ds" for d
    proof -
      from clean_dirs_success_absent[OF cd' that] have "map_of (fs (mach wa)) d = None" .
      moreover from wfa have "distinct (map fst (fs (mach wa)))" by simp
      ultimately show ?thesis by (simp add: w1_def map_of_prune)
    qed
    have cd2: "clean_dirs ?ds (log_event (Phase Clean) w1) = (Inr (), log_event (Phase Clean) w1)"
      by (rule clean_dirs_absent_noop) (rule gone)
    have wf1: "wf (Dir (fs (mach (log_event (Phase Clean) w1))))"
      using wf_prune[OF wfa] by (simp add: w1_def)
    from clean_build_walked[OF cd2 wf1]
    have second: "clean_build w1 =
        (Inr (), (log_event (Phase Clean) w1)
           \<lparr>mach := (mach w1)\<lparr>fs := prune (fs (mach w1))\<rparr>,
             out := out w1 @ announce ''.'' (Dir (fs (mach w1)))\<rparr>)"
      by simp
    have "prune (fs (mach w1)) = fs (mach w1)" by (simp add: w1_def prune_idem)
    moreover have "announce ''.'' (Dir (fs (mach w1))) = []"
      by (simp add: w1_def announce_Dir_prune)
    ultimately show ?thesis
      by (simp add: first second)
  qed
  with absent show ?thesis unfolding Let_def by blast
qed

theorem clean_build_idempotent_witness:
  "wf (Dir (fs (mach world_project)))
   \<and> fst (clean_build world_project) = Inr ()
   \<and> fst (clean_build (snd (clean_build world_project))) = Inr ()
   \<and> mach (snd (clean_build (snd (clean_build world_project)))) = mach (snd (clean_build world_project))
   \<and> out (snd (clean_build (snd (clean_build world_project)))) = out (snd (clean_build world_project))
   \<and> \<not> os_path_exists ''docs'' world_project
   \<and> clean_dirs [''docs''] world_project = (Inr (), world_project)"
proof -
  have a: "wf (Dir (fs (mach world_project)))" by code_simp
  have b: "fst (clean_build world_project) = Inr ()" by code_simp
  have c: "\<not> os_path_exists ''docs'' world_project" by code_simp
  have d: "clean_dirs [''docs''] world_project = (Inr (), world_project)" by code_simp
  from clean_build_idempotent[OF a] a b c d show ?thesis by (simp add: Let_def)
qed

section \<open>The exit status\<close>

lemma spec_run_chain_returns: "Clean \<notin> set ps \<Longrightarrow> fst (spec_run_chain sh ps w) = Inr ()"
proof (induction ps arbitrary: w)
  case Nil
  then show ?case by simp
next
  case (Cons p ps)
  then have "p \<noteq> Clean" and IH: "\<And>w. fst (spec_run_chain sh ps w) = Inr ()" by auto
  then show ?case by (cases p) (simp_all add: case_prod_beta)
qed

lemma spec_run_chain_clean_returns:
  assumes "fst (clean_build w) = Inr ()" and "Clean \<notin> set ps"
  shows "fst (spec_run_chain sh (Clean # ps) w) = Inr ()"
proof -
  obtain w1 where "clean_build w = (Inr (), w1)"
    using assms(1) by (cases "clean_build w") auto
  with spec_run_chain_returns[OF assms(2), of sh w1] show ?thesis by simp
qed

text \<open>\<open>main\<close> returns whenever \<open>clean_build\<close> does, or is not run.\<close>

lemma main_returns:
  assumes "os_path_exists ''setup.py'' w"
    and "fst (clean_build (started w)) = Inr () \<or>
         (1 < length argv \<and> argv ! 1 \<notin> {''clean'', ''build'', ''all''})"
  shows "fst (main sh argv w) = Inr ()"
proof (cases "1 < length argv")
  case True
  then obtain prog command extra where argv: "argv = prog # command # extra"
    by (cases argv; cases "tl argv") auto
  consider "command = ''clean''" | "command = ''build''" | "command = ''install''"
    | "command = ''test''" | "command = ''all''"
    | "command \<notin> {''clean'', ''build'', ''install'', ''test'', ''all''}" by auto
  then show ?thesis
  proof cases
    case 1
    with assms argv show ?thesis by (simp add: main_clean spec_run_chain_clean_returns del: spec_run_chain.simps)
  next
    case 2
    with assms argv show ?thesis by (simp add: main_build spec_run_chain_clean_returns del: spec_run_chain.simps)
  next
    case 3
    with assms(1) argv show ?thesis by (simp add: main_install spec_run_chain_returns del: spec_run_chain.simps)
  next
    case 4
    with assms(1) argv show ?thesis by (simp add: main_test spec_run_chain_returns del: spec_run_chain.simps)
  next
    case 5
    with assms argv show ?thesis by (simp add: main_all spec_run_chain_clean_returns del: spec_run_chain.simps)
  next
    case 6
    with assms(1) argv show ?thesis by (simp add: main_unknown)
  qed
next
  case False
  then have eq: "main sh argv w = main sh [''build.py''] w"
    by (intro main_cong) simp_all
  from False assms(2) have c: "fst (clean_build (started w)) = Inr ()" by simp
  then obtain w3 where cb: "clean_build (started w) = (Inr (), w3)"
    by (cases "clean_build (started w)") auto
  show ?thesis
    unfolding eq main_no_argument[OF assms(1)] cb by simp
qed

lemma spec_run_chain_clean_raises:
  assumes "fst (clean_build w) = Inl e"
  shows "fst (spec_run_chain sh (Clean # ps) w) = Inl e"
proof -
  obtain w1 where "clean_build w = (Inl e, w1)"
    using assms by (cases "clean_build w") auto
  then show ?thesis by simp
qed

text \<open>An exception of \<open>clean_build\<close> ends \<open>main\<close>, for the commands that clean.\<close>

lemma main_raises:
  assumes "os_path_exists ''setup.py'' w"
    and "fst (clean_build (started w)) = Inl e"
    and "\<not> (1 < length argv \<and> argv ! 1 \<notin> {''clean'', ''build'', ''all''})"
  shows "fst (main sh argv w) = Inl e"
proof (cases "1 < length argv")
  case True
  then obtain prog command extra where argv: "argv = prog # command # extra"
    by (cases argv; cases "tl argv") auto
  with True assms(3) consider "command = ''clean''" | "command = ''build''" | "command = ''all''"
    by auto
  then show ?thesis
  proof cases
    case 1
    with assms argv show ?thesis
      by (simp add: main_clean spec_run_chain_clean_raises del: spec_run_chain.simps)
  next
    case 2
    with assms argv show ?thesis
      by (simp add: main_build spec_run_chain_clean_raises del: spec_run_chain.simps)
  next
    case 3
    with assms argv show ?thesis
      by (simp add: main_all spec_run_chain_clean_raises del: spec_run_chain.simps)
  qed
next
  case False
  then have eq: "main sh argv w = main sh [''build.py''] w"
    by (intro main_cong) simp_all
  obtain w3 where cb: "clean_build (started w) = (Inl e, w3)"
    using assms(2) by (cases "clean_build (started w)") auto
  show ?thesis
    unfolding eq main_no_argument[OF assms(1)] cb by simp
qed

text \<open>Whether \<open>main\<close> returns is decided before any command is run.\<close>

lemma main_outcome:
  assumes "os_path_exists ''setup.py'' w"
  shows "fst (main sh argv w) =
           (if 1 < length argv \<and> argv ! 1 \<notin> {''clean'', ''build'', ''all''} then Inr ()
            else fst (clean_build (started w)))"
proof (cases "1 < length argv \<and> argv ! 1 \<notin> {''clean'', ''build'', ''all''}")
  case True
  with main_returns[OF assms, of argv sh] show ?thesis by simp
next
  case False
  show ?thesis
  proof (cases "fst (clean_build (started w))")
    case (Inl e)
    from main_raises[OF assms Inl False, of sh] False Inl show ?thesis by simp
  next
    case (Inr u)
    with main_returns[OF assms, of argv sh] False show ?thesis by simp
  qed
qed

text \<open>
  C2, as amended. Without \<^verbatim>\<open>setup.py\<close> in the working directory \<open>main\<close> prints its
  header and the two error lines, enters no phase, runs no command and exits with status
  1. With \<^verbatim>\<open>setup.py\<close> there:
  \<^item> whether \<open>main\<close> returns or lets an exception escape is the same for any two shells:
    what the external commands answer (success, or \<^verbatim>\<open>CalledProcessError\<close>), and so what
    the phases return, never changes the exit status;
  \<^item> when \<open>main\<close> returns, the exit status is 0;
  \<^item> \<open>main\<close> returns whenever \<open>clean_build\<close> raises nothing, and for every first
    argument other than \<^verbatim>\<open>clean\<close>, \<^verbatim>\<open>build\<close> and \<^verbatim>\<open>all\<close> (the commands that do not
    run \<open>clean_build\<close>).

  \<^verbatim>\<open>shutil.rmtree\<close> is the one library call that raises here; \<^verbatim>\<open>print\<close>,
  \<^verbatim>\<open>import\<close> and \<^verbatim>\<open>subprocess.run\<close> raise nothing that the script does not catch.
  What the process does when a library call raises is not part of the statement.
\<close>

theorem exit_status_by_marker:
  "(\<not> os_path_exists ''setup.py'' w \<longrightarrow>
      exit_status (fst (main sh argv w)) = 1
      \<and> events (snd (main sh argv w)) = events w
      \<and> mach (snd (main sh argv w)) = mach w
      \<and> out (snd (main sh argv w)) =
          out w @ [''Building mcsrvstatus library'', replicate 50 (CHR ''=''),
                   ''Error: setup.py file not found!'',
                   ''Make sure you are in the project root directory.''])
   \<and> (os_path_exists ''setup.py'' w \<longrightarrow>
        fst (main sh argv w) = fst (main sh' argv w)
        \<and> (fst (main sh argv w) = Inr () \<longrightarrow> exit_status (fst (main sh argv w)) = 0)
        \<and> (fst (clean_build (started w)) = Inr () \<or>
             (1 < length argv \<and> argv ! 1 \<notin> {''clean'', ''build'', ''all''})
           \<longrightarrow> fst (main sh argv w) = Inr () \<and> exit_status (fst (main sh argv w)) = 0))"
proof (intro conjI impI)
  assume "\<not> os_path_exists ''setup.py'' w"
  then have m: "main sh argv w =
       (Inl (SystemExit 1),
        print ''Make sure you are in the project root directory.''
          (print ''Error: setup.py file not found!'' (started w)))"
    by (rule main_missing_marker)
  show "exit_status (fst (main sh argv w)) = 1" by (simp add: m)
  show "events (snd (main sh argv w)) = events w" by (simp add: m)
  show "mach (snd (main sh argv w)) = mach w" by (simp add: m started_def)
  show "out (snd (main sh argv w)) =
          out w @ [''Building mcsrvstatus library'', replicate 50 (CHR ''=''),
                   ''Error: setup.py file not found!'',
                   ''Make sure you are in the project root directory.'']"
    by (simp add: m started_def)
next
  assume "os_path_exists ''setup.py'' w"
  then show "fst (main sh argv w) = fst (main sh' argv w)"
    by (simp only: main_outcome)
next
  assume "fst (main sh argv w) = Inr ()"
  then show "exit_status (fst (main sh argv w)) = 0" by simp
next
  assume m: "os_path_exists ''setup.py'' w"
    and c: "fst (clean_build (started w)) = Inr () \<or>
            (1 < length argv \<and> argv ! 1 \<notin> {''clean'', ''build'', ''all''})"
  then show r: "fst (main sh argv w) = Inr ()" by (rule main_returns)
  then show "exit_status (fst (main sh argv w)) = 0" by simp
qed

theorem exit_status_by_marker_witness:
  "\<not> os_path_exists ''setup.py'' world_elsewhere
   \<and> exit_status (fst (main shell_ok [''build.py'', ''all''] world_elsewhere)) = 1
   \<and> events (snd (main shell_ok [''build.py'', ''all''] world_elsewhere)) = []
   \<and> os_path_exists ''setup.py'' world_project
   \<and> fst (clean_build (started world_project)) = Inr ()
   \<and> fst (main shell_failing [''build.py'', ''all''] world_project) =
       fst (main shell_ok [''build.py'', ''all''] world_project)
   \<and> exit_status (fst (main shell_failing [''build.py'', ''all''] world_project)) = 0
   \<and> os_path_exists ''setup.py'' world_file_build
   \<and> exit_status (fst (main shell_failing [''build.py'', ''install''] world_file_build)) = 0"
proof -
  have a: "\<not> os_path_exists ''setup.py'' world_elsewhere" by code_simp
  have b: "os_path_exists ''setup.py'' world_project" by code_simp
  have c: "fst (clean_build (started world_project)) = Inr ()" by code_simp
  have d: "os_path_exists ''setup.py'' world_file_build" by code_simp
  have e: "1 < length [''build.py'', ''install'']
           \<and> [''build.py'', ''install''] ! 1 \<notin> {''clean'', ''build'', ''all''}"
    by simp
  have f: "events world_elsewhere = []" by code_simp
  from exit_status_by_marker[of world_elsewhere shell_ok "[''build.py'', ''all'']"] a
  have 1: "exit_status (fst (main shell_ok [''build.py'', ''all''] world_elsewhere)) = 1
           \<and> events (snd (main shell_ok [''build.py'', ''all''] world_elsewhere)) = []"
    by (simp add: f)
  from exit_status_by_marker[of world_project shell_failing "[''build.py'', ''all'']" shell_ok] b c
  have 2: "fst (main shell_failing [''build.py'', ''all''] world_project) =
             fst (main shell_ok [''build.py'', ''all''] world_project)
           \<and> exit_status (fst (main shell_failing [''build.py'', ''all''] world_project)) = 0"
    by blast
  from exit_status_by_marker[of world_file_build shell_failing "[''build.py'', ''install'']"] d e
  have 3: "exit_status (fst (main shell_failing [''build.py'', ''install''] world_file_build)) = 0"
    by blast
  from a b c d 1 2 3 show ?thesis by blast
qed

text \<open>
  C2 as it is stated fails: with \<^verbatim>\<open>setup.py\<close> present and a regular file named
  \<^verbatim>\<open>build\<close>, \<^verbatim>\<open>os.path.exists('build')\<close> holds, \<^verbatim>\<open>shutil.rmtree('build')\<close> raises
  \<^verbatim>\<open>NotADirectoryError\<close>, nothing catches it, and the process exits with status 1.
\<close>

theorem exit_status_counterexample:
  "os_path_exists ''setup.py'' world_file_build
   \<and> fst (main shell_ok [''build.py'', ''clean''] world_file_build) = Inl NotADirectoryError
   \<and> exit_status (fst (main shell_ok [''build.py'', ''clean''] world_file_build)) = 1"
  by code_simp

end
